theory Spec2Isabelle
  imports Complex_Main "HOL-Library.Word"
begin

unbundle bit_operations_syntax

section \<open>JavaScript values and 32-bit operators\<close>

text \<open>
  The integers that the stream handles are JavaScript numbers with integral value; they are
  modelled as \<open>int\<close>. The bitwise operators of JavaScript first convert their operands to
  32-bit integers (\<open>ToInt32\<close>, \<open>ToUint32\<close>) and take the shift count modulo 32.
\<close>

datatype js_value = JBoolean bool | JNumber int | JString string | JUndefined | JNull

definition ToInt32 :: "int \<Rightarrow> int" where
  "ToInt32 x = signed_take_bit 31 x"

definition ToUint32 :: "int \<Rightarrow> int" where
  "ToUint32 x = take_bit 32 x"

definition js_and :: "int \<Rightarrow> int \<Rightarrow> int" where
  "js_and a b = ToInt32 a AND ToInt32 b"

definition js_or :: "int \<Rightarrow> int \<Rightarrow> int" where
  "js_or a b = ToInt32 a OR ToInt32 b"

definition js_shl :: "int \<Rightarrow> nat \<Rightarrow> int" where
  "js_shl a n = ToInt32 (push_bit (n mod 32) (ToInt32 a))"

definition js_shr :: "int \<Rightarrow> nat \<Rightarrow> int" where
  "js_shr a n = drop_bit (n mod 32) (ToInt32 a)"

definition js_ushr :: "int \<Rightarrow> nat \<Rightarrow> int" where
  "js_ushr a n = drop_bit (n mod 32) (ToUint32 a)"

definition Number_of_bool :: "bool \<Rightarrow> int" where
  "Number_of_bool b = (if b then 1 else 0)"

section \<open>Buffers\<close>

text \<open>
  A Node.js \<open>Buffer\<close> is a fixed-length array of unsigned bytes. \<open>readUInt8\<close> and
  \<open>writeUInt8\<close> throw a range error for an offset outside the buffer, and \<open>writeUInt8\<close>
  also for a value outside \<open>0..255\<close>.
\<close>

datatype error = InvalidArgument | OutOfRange

type_synonym buffer = "8 word list"

definition Buffer_alloc :: "nat \<Rightarrow> buffer" where
  "Buffer_alloc n = replicate n 0"

definition Buffer_copy :: "buffer \<Rightarrow> buffer \<Rightarrow> buffer" where
  \<comment> \<open>\<open>old.copy(target)\<close>: the first \<open>min (length old) (length target)\<close> bytes of \<open>target\<close>
      are overwritten with those of \<open>old\<close>; the result is the new \<open>target\<close>.\<close>
  "Buffer_copy old target = take (length target) old @ drop (length old) target"

definition readUInt8 :: "buffer \<Rightarrow> nat \<Rightarrow> error + int" where
  "readUInt8 buf off = (if off < length buf then Inr (uint (buf ! off)) else Inl OutOfRange)"

definition writeUInt8 :: "buffer \<Rightarrow> int \<Rightarrow> nat \<Rightarrow> error + buffer" where
  "writeUInt8 buf v off =
     (if 0 \<le> v \<and> v \<le> 255 \<and> off < length buf then Inr (buf[off := word_of_int v])
      else Inl OutOfRange)"

section \<open>The stream and its operations\<close>

record BitStream =
  data :: buffer
  byteCount :: nat
  readBytePosition :: nat
  readBitPosition :: nat
  writeBytePosition :: nat
  writeBitPosition :: nat
  byte :: "int option"

text \<open>
  A method of the class mutates the object and either returns or throws; a throw leaves the
  mutations made so far. So a method is a function from the stream to an outcome and the
  stream after the call.

  The cursor fields and \<open>byteCount\<close> hold non-negative integers at every point of the code
  (a bit position is decremented and, when that gives \<open>-1\<close>, reset to 7 in the same
  statement), so they are natural numbers here and the test for \<open>-1\<close> after the decrement
  is the test for 0 before it. Counts of bits and bytes passed as arguments (\<open>readBits(n)\<close>,
  \<open>writeBits(n, b)\<close>, \<open>readBytes(n)\<close>, the \<open>size\<close> of the compressed codec) are natural
  numbers as well. The field \<open>byte\<close> is \<open>None\<close> where the source has \<open>undefined\<close>.
\<close>

type_synonym 'a js = "BitStream \<Rightarrow> (error + 'a) \<times> BitStream"

definition return :: "'a \<Rightarrow> 'a js" where
  "return x s = (Inr x, s)"

definition throw :: "error \<Rightarrow> 'a js" where
  "throw e s = (Inl e, s)"

definition bind :: "'a js \<Rightarrow> ('a \<Rightarrow> 'b js) \<Rightarrow> 'b js" where
  "bind m f s = (case m s of (Inl e, s') \<Rightarrow> (Inl e, s') | (Inr x, s') \<Rightarrow> f x s')"

definition mask_table :: "int list" where
  "mask_table = [0x01, 0x02, 0x04, 0x08, 0x10, 0x20, 0x40, 0x80]"

definition mask_at :: "nat \<Rightarrow> int" where
  \<comment> \<open>\<open>this.#mask[i]\<close>; outside the table the lookup is \<open>undefined\<close>, which the bitwise
      operators read as 0.\<close>
  "mask_at i = (if i < length mask_table then mask_table ! i else 0)"

definition new_BitStream :: "buffer option \<Rightarrow> BitStream" where
  "new_BitStream d =
     (let buf = (case d of None \<Rightarrow> Buffer_alloc 0 | Some b \<Rightarrow> b)
      in \<lparr> data = buf, byteCount = length buf,
           readBytePosition = 0, readBitPosition = 7,
           writeBytePosition = 0, writeBitPosition = 7,
           byte = (if length buf \<noteq> 0 then Some (uint (buf ! 0)) else None) \<rparr>)"

definition length_BitStream :: "BitStream \<Rightarrow> nat" where
  "length_BitStream s = byteCount s"

definition bits :: "BitStream \<Rightarrow> int" where
  "bits s = int (writeBytePosition s) * 8 + (8 - int (writeBitPosition s)) - 1"

definition allRead :: "BitStream \<Rightarrow> bool" where
  "allRead s =
     (int (readBytePosition s) * 8 + int (readBitPosition s) \<ge> int (byteCount s) * 8 - 1)"

definition get_byte :: "nat \<Rightarrow> int js" where
  \<comment> \<open>\<open>this.#data.readUInt8(off)\<close>\<close>
  "get_byte off s = (case readUInt8 (data s) off of Inl e \<Rightarrow> (Inl e, s) | Inr v \<Rightarrow> (Inr v, s))"

definition put_byte :: "int \<Rightarrow> nat \<Rightarrow> unit js" where
  \<comment> \<open>\<open>this.#data.writeUInt8(v, off)\<close>\<close>
  "put_byte v off s =
     (case writeUInt8 (data s) v off of Inl e \<Rightarrow> (Inl e, s)
      | Inr buf \<Rightarrow> (Inr (), s\<lparr>data := buf\<rparr>))"

definition resize_for_write :: "unit js" where
  \<comment> \<open>The body of \<open>if(this.#writeBitPosition === 7)\<close> in \<open>writeBit\<close>: a new buffer of
      \<open>writeBytePosition + 1\<close> bytes, whatever the old length was.\<close>
  "resize_for_write s =
     (let old = data s;
          s1 = s\<lparr>data := Buffer_alloc (writeBytePosition s + 1)\<rparr>;
          s2 = s1\<lparr>byteCount := writeBytePosition s1 + 1\<rparr>;
          s3 = s2\<lparr>data := Buffer_copy old (data s2)\<rparr>
      in put_byte 0 (writeBytePosition s3) s3)"

definition advance_write :: "unit js" where
  \<comment> \<open>\<open>writeBitPosition--\<close>, and the roll-over when it falls below 0.\<close>
  "advance_write s =
     (if writeBitPosition s = 0
      then (Inr (), s\<lparr>writeBitPosition := 7, writeBytePosition := writeBytePosition s + 1\<rparr>)
      else (Inr (), s\<lparr>writeBitPosition := writeBitPosition s - 1\<rparr>))"

definition writeBit :: "js_value \<Rightarrow> unit js" where
  \<comment> \<open>The first \<open>case\<close> is \<open>typeof(b) === "boolean"\<close>; every other value throws.\<close>
  "writeBit b =
     (case b of
        JBoolean v \<Rightarrow>
          bind (\<lambda>s. if writeBitPosition s = 7 then resize_for_write s else return () s) (\<lambda>_.
          bind (\<lambda>s. get_byte (writeBytePosition s) s) (\<lambda>byte.
          bind (\<lambda>s. put_byte (js_or byte (js_shl (Number_of_bool v) (writeBitPosition s)))
                       (writeBytePosition s) s) (\<lambda>_.
          advance_write)))
      | _ \<Rightarrow> throw InvalidArgument)"

fun byte_loop :: "nat \<Rightarrow> int \<Rightarrow> unit js" where
  \<comment> \<open>The loop shared, word for word, by \<open>writeByte\<close> (8 rounds) and \<open>writeSignedByte\<close>
      (7 rounds).\<close>
  "byte_loop 0 n = return ()"
| "byte_loop (Suc k) n =
     bind (writeBit (JBoolean (js_ushr (js_and n 0x80) 7 = 1))) (\<lambda>_.
     byte_loop k (js_and (js_shl n 1) 0xFF))"

definition writeByte :: "int \<Rightarrow> unit js" where
  "writeByte n = byte_loop 8 n"

definition writeSignedByte :: "int \<Rightarrow> unit js" where
  "writeSignedByte n = bind (writeBit (JBoolean (n < 0))) (\<lambda>_. byte_loop 7 \<bar>n\<bar>)"

definition advance_read :: "unit js" where
  "advance_read s =
     (if readBitPosition s = 0
      then (Inr (), s\<lparr>readBitPosition := 7, readBytePosition := readBytePosition s + 1\<rparr>)
      else (Inr (), s\<lparr>readBitPosition := readBitPosition s - 1\<rparr>))"

definition readBit :: "int js" where
  "readBit =
     bind (\<lambda>s. if readBytePosition s \<ge> byteCount s
               then bind (\<lambda>s. return () (s\<lparr>writeBytePosition := readBytePosition s\<rparr>))
                         (\<lambda>_. writeByte 0) s
               else return () s) (\<lambda>_.
     bind (\<lambda>s. get_byte (readBytePosition s) s) (\<lambda>byte.
     bind (\<lambda>s. return (js_shr (js_and byte (mask_at (readBitPosition s))) (readBitPosition s)) s)
       (\<lambda>bit.
     bind advance_read (\<lambda>_.
     return bit))))"

fun readBits_loop :: "nat \<Rightarrow> int \<Rightarrow> int js" where
  "readBits_loop 0 val = return val"
| "readBits_loop (Suc n) val =
     bind readBit (\<lambda>bit. readBits_loop n (js_or (js_shl val 1) bit))"

definition readBits :: "nat \<Rightarrow> int js" where
  "readBits n =
     bind (\<lambda>s. if readBytePosition s < byteCount s
               then bind (get_byte (readBytePosition s)) (\<lambda>v s'. return () (s'\<lparr>byte := Some v\<rparr>)) s
               else return () s) (\<lambda>_.
     readBits_loop n 0)"

fun writeBits_loop :: "int \<Rightarrow> nat \<Rightarrow> unit js" where
  "writeBits_loop n 0 = return ()"
| "writeBits_loop n (Suc i) =
     bind (writeBit (JBoolean (js_and (js_shr n i) 0x01 = 1))) (\<lambda>_. writeBits_loop n i)"

definition writeBits :: "int \<Rightarrow> nat \<Rightarrow> unit js" where
  "writeBits n b = writeBits_loop n b"

definition readByte :: "int js" where
  "readByte = readBits 8"

definition readSignedChar :: "int js" where
  "readSignedChar =
     bind readBit (\<lambda>b. if b \<noteq> 0 then bind (readBits 7) (\<lambda>v. return (- v)) else readBits 7)"

definition on_other :: "unit js \<Rightarrow> BitStream \<Rightarrow> BitStream js" where
  \<comment> \<open>A call \<open>ret.m(...)\<close> on a second, local stream \<open>ret\<close> from inside a method of
      \<open>this\<close>: the result is \<open>ret\<close> after the call, and a throw of the call is a throw of
      the method.\<close>
  "on_other m ret = (case m ret of (Inl e, _) \<Rightarrow> throw e | (Inr _, ret') \<Rightarrow> return ret')"

fun readBytes_loop :: "nat \<Rightarrow> BitStream \<Rightarrow> BitStream js" where
  "readBytes_loop 0 val = return val"
| "readBytes_loop (Suc n) val =
     (\<lambda>s. if readBytePosition s < length_BitStream s
          then bind readByte (\<lambda>v. bind (on_other (writeByte v) val) (readBytes_loop n)) s
          else return val s)"

definition readBytes :: "nat \<Rightarrow> BitStream js" where
  "readBytes n = readBytes_loop n (new_BitStream None)"

definition js_logical_and :: "int \<Rightarrow> int \<Rightarrow> int" where
  \<comment> \<open>\<open>a && b\<close> on numbers: \<open>b\<close> when \<open>a\<close> is not 0, else \<open>a\<close>.\<close>
  "js_logical_and a b = (if a \<noteq> 0 then b else a)"

fun zero_bytes :: "nat \<Rightarrow> BitStream \<Rightarrow> BitStream js" where
  \<comment> \<open>\<open>for(let i = 0; i < k; i++) ret.writeByte(0)\<close>\<close>
  "zero_bytes 0 ret = return ret"
| "zero_bytes (Suc k) ret = bind (on_other (writeByte 0) ret) (zero_bytes k)"

fun transfer_bytes :: "nat \<Rightarrow> BitStream \<Rightarrow> BitStream js" where
  \<comment> \<open>\<open>for(let i = 0; i < k; i++) ret.writeByte(this.readByte())\<close>\<close>
  "transfer_bytes 0 ret = return ret"
| "transfer_bytes (Suc k) ret =
     bind readByte (\<lambda>v. bind (on_other (writeByte v) ret) (transfer_bytes k))"

fun readCompressed_loop :: "nat \<Rightarrow> nat \<Rightarrow> BitStream \<Rightarrow> BitStream js" where
  \<comment> \<open>The second argument is \<open>currentByte\<close>; the equation for 0 is the code after the
      \<open>while\<close> loop.\<close>
  "readCompressed_loop sz 0 ret =
     bind readBit (\<lambda>b.
     bind (if b \<noteq> 0
           then bind (readBits 4) (\<lambda>v. on_other (writeByte (js_logical_and (js_shl v 4) 0xF0)) ret)
           else bind readByte (\<lambda>v. on_other (writeByte v) ret)) (\<lambda>ret'.
     zero_bytes (sz - 1) ret'))"
| "readCompressed_loop sz (Suc c) ret =
     bind readBit (\<lambda>b.
       if b \<noteq> 0 then readCompressed_loop sz c ret
       else bind (zero_bytes (sz - Suc c - 1) ret) (\<lambda>ret'. transfer_bytes (Suc c + 1) ret'))"

definition readCompressed :: "nat \<Rightarrow> BitStream js" where
  "readCompressed sz = readCompressed_loop sz (sz - 1) (new_BitStream None)"

definition compress_mask :: "int list" where
  "compress_mask = [0xFF, 0xFF00, 0xFF0000, 0xFF000000, 0xFF00000000, 0xFF0000000000,
                    0xFF000000000000, 0xFF00000000000000]"

definition compress_mask_at :: "nat \<Rightarrow> int" where
  \<comment> \<open>\<open>mask[i]\<close> of \<open>writeCompressed\<close>; \<open>undefined\<close> outside the table, 0 to \<open>&\<close>.\<close>
  "compress_mask_at i = (if i < length compress_mask then compress_mask ! i else 0)"

fun emit_bytes :: "int \<Rightarrow> nat \<Rightarrow> nat \<Rightarrow> unit js" where
  \<comment> \<open>\<open>emit_bytes d i k\<close> is the rounds \<open>i, ..., i + k - 1\<close> of the loop
      \<open>for(let i = 0; i < currentByte + 1; i++) this.writeByte((data & mask[i]) >> i * 8)\<close>.\<close>
  "emit_bytes d i 0 = return ()"
| "emit_bytes d i (Suc k) =
     bind (writeByte (js_shr (js_and d (compress_mask_at i)) (i * 8))) (\<lambda>_.
     emit_bytes d (Suc i) k)"

fun writeCompressed_loop :: "int \<Rightarrow> nat \<Rightarrow> unit js" where
  "writeCompressed_loop d 0 =
     (let zero = (js_and d 0xF0 = 0)
      in bind (writeBit (JBoolean zero)) (\<lambda>_.
         if zero then writeBits (js_and d (js_shr 0xF0 4)) 4
         else writeByte (js_and d 0xFF)))"
| "writeCompressed_loop d (Suc c) =
     (let zero = (js_and d (compress_mask_at (Suc c)) = 0)
      in bind (writeBit (JBoolean zero)) (\<lambda>_.
         if \<not> zero then emit_bytes d 0 (Suc c + 1)
         else writeCompressed_loop d c))"

definition writeCompressed :: "int \<Rightarrow> nat \<Rightarrow> unit js" where
  "writeCompressed d sz = writeCompressed_loop d (sz - 1)"

type_synonym js_string = "int list"

fun write_chars :: "js_string \<Rightarrow> unit js" where
  \<comment> \<open>\<open>for(let i = 0; i < string.length; i++) this.writeByte(string.charCodeAt(i))\<close>\<close>
  "write_chars [] = return ()"
| "write_chars (c # cs) = bind (writeByte c) (\<lambda>_. write_chars cs)"

definition writeString :: "js_string \<Rightarrow> int option \<Rightarrow> unit js" where
  "writeString string sz =
     (let sz' = (case sz of None \<Rightarrow> 33 | Some n \<Rightarrow> n);
          string' = string @ replicate (nat (sz' - int (length string))) 0
      in write_chars string')"

definition writeFloat_fields :: "bool \<Rightarrow> int \<Rightarrow> int \<Rightarrow> unit js" where
  \<comment> \<open>The six write calls of \<open>writeFloat\<close>, on the sign and on the values that
      \<open>exponent\<close> (after \<open>exponent += 127\<close>) and \<open>mantissa\<close> have as operands of the bitwise
      operators.\<close>
  "writeFloat_fields sign exponent mantissa =
     bind (writeByte (js_and mantissa 0xff)) (\<lambda>_.
     bind (writeByte (js_shr (js_and mantissa 0xff00) 8)) (\<lambda>_.
     bind (writeBit (JBoolean (js_and exponent 0x01 = 1))) (\<lambda>_.
     bind (writeBits (js_shr (js_and mantissa 0x7f0000) 16) 7) (\<lambda>_.
     bind (writeBit (JBoolean sign)) (\<lambda>_.
     writeBits (js_shr (js_and exponent 0xfe) 1) 7)))))"

definition writeFloat :: "(real \<Rightarrow> real) \<Rightarrow> real \<Rightarrow> unit js" where
  \<comment> \<open>The argument \<open>n\<close> is a finite JavaScript number, given by its exact value. The first
      argument \<open>lg\<close> stands for \<open>Math.log2\<close>: the language leaves its result
      implementation-approximated, and next to a power of two the double that it returns
      need not have the floor of the exact logarithm, so the model takes the function as it
      is and assumes nothing about it. \<open>Math.pow(2, exponent)\<close> is the exact power from
      \<open>2^-1074\<close> to \<open>2^1023\<close>, \<open>Infinity\<close> above and 0 below. With the power in that range
      and the quotient \<open>|n| / 2^exponent\<close> between 1/2 and 4 (which every \<open>lg\<close> within 1 of
      the exact logarithm gives), the division, the subtraction of 1, the scaling by \<open>2^23\<close>
      and \<open>Math.ceil\<close> are exact in doubles, so the mantissa is the exact value below. Where
      the power is \<open>Infinity\<close> the quotient is 0 and the mantissa \<open>-8388608\<close>; where the
      power is 0 the quotient and the mantissa are \<open>Infinity\<close>, which the bitwise operators
      read as 0. For \<open>n = 0\<close>, \<open>Math.log2\<close> gives \<open>-Infinity\<close>, the mantissa is \<open>NaN\<close> and
      the exponent \<open>-Infinity\<close>; the bitwise operators read both as 0. The literal
      \<open>1.1920928955078125e-7\<close> is \<open>2^-23\<close>, written out in decimals below.\<close>
  "writeFloat lg n =
     (if n = 0 then writeFloat_fields False 0 0
      else
       (let sign = (n < 0);
            exponent = \<lfloor>lg \<bar>n\<bar>\<rfloor>;
            mantissa =
              (if 1024 \<le> exponent then - 8388608
               else if exponent < - 1074 then 0
               else \<lceil>(\<bar>n\<bar> / 2 powr (of_int exponent) - 1) / 0.00000011920928955078125\<rceil>)
        in writeFloat_fields sign (exponent + 127) mantissa))"

section \<open>Auxiliary notions for the proofs\<close>

text \<open>
  \<open>grown buf n\<close> is the first \<open>n\<close> bytes of the buffer that \<open>writeBit\<close> allocates at a byte
  boundary: the old bytes below \<open>n\<close>, zero-filled up to \<open>n\<close>. \<open>writeBit_seq\<close> and
  \<open>readBit_seq\<close> are sequences of \<open>writeBit\<close> and \<open>readBit\<close> calls, \<open>bl_val\<close> is the
  byte value of up to eight bits, most significant first, and \<open>after_bytes s bs\<close> is the
  stream after the bytes \<open>bs\<close> have been written at a byte boundary. \<open>bits_written s bs q j\<close>
  says that the buffer of \<open>s\<close> holds exactly the bits \<open>bs\<close>, \<open>8 * q + j\<close> of them, most
  significant bit first and zero-padded, with the write cursor behind the last one.
  \<open>float_bits\<close> is the order of the 32 bits of the float format.
  \<open>bit_at d k\<close> is bit \<open>k\<close> of the buffer \<open>d\<close>, counted from the most significant bit of
  byte 0 on, and 0 behind the end of the buffer; \<open>read_position\<close> is the read cursor as such
  a bit index, \<open>acc_bits\<close> is the value that \<open>readBits\<close> accumulates from a list of bits, and
  \<open>byte_from d pos\<close> is the byte made of the eight bits of \<open>d\<close> from \<open>pos\<close> on.
  \<open>extended s s'\<close> says that the buffer of \<open>s'\<close> is the buffer of \<open>s\<close> followed by zero bytes
  only, with the write cursor where \<open>readBit\<close> leaves it: unchanged when no byte was added,
  behind the last byte otherwise. \<open>char_bits c\<close> are the eight bits that \<open>writeByte\<close> writes
  for the character code \<open>c\<close>.
\<close>

definition grown :: "buffer \<Rightarrow> nat \<Rightarrow> buffer" where
  "grown buf n = take n buf @ replicate (n - length buf) 0"

fun writeBit_seq :: "bool list \<Rightarrow> unit js" where
  "writeBit_seq [] = return ()"
| "writeBit_seq (b # bs) = bind (writeBit (JBoolean b)) (\<lambda>_. writeBit_seq bs)"

fun bl_val :: "bool list \<Rightarrow> 8 word" where
  "bl_val [] = 0"
| "bl_val (b # bs) = push_bit (length bs) (of_bool b) OR bl_val bs"

definition after_bytes :: "BitStream \<Rightarrow> buffer \<Rightarrow> BitStream" where
  "after_bytes s bs =
     (if bs = [] then s
      else s\<lparr>data := grown (data s) (writeBytePosition s) @ bs,
             byteCount := writeBytePosition s + length bs,
             writeBytePosition := writeBytePosition s + length bs\<rparr>)"

fun readBit_seq :: "nat \<Rightarrow> int list js" where
  "readBit_seq 0 = return []"
| "readBit_seq (Suc n) = bind readBit (\<lambda>b. bind (readBit_seq n) (\<lambda>bs. return (b # bs)))"

definition bits_written :: "BitStream \<Rightarrow> bool list \<Rightarrow> nat \<Rightarrow> nat \<Rightarrow> bool" where
  "bits_written s bs q j \<longleftrightarrow>
     length bs = 8 * q + j \<and> j < 8 \<and>
     writeBytePosition s = q \<and> writeBitPosition s = 7 - j \<and>
     byteCount s = length (data s) \<and>
     length (data s) = (if j = 0 then q else q + 1) \<and>
     (\<forall>i < length (data s). \<forall>p < 8.
        bit (data s ! i) (7 - p) = (8 * i + p < length bs \<and> bs ! (8 * i + p)))"

definition float_bits :: "bool \<Rightarrow> int \<Rightarrow> int \<Rightarrow> bool list" where
  "float_bits sign e m =
     map (bit m) [7, 6, 5, 4, 3, 2, 1, 0] @ map (bit m) [15, 14, 13, 12, 11, 10, 9, 8] @
     [bit e 0] @ map (bit m) [22, 21, 20, 19, 18, 17, 16] @
     [sign] @ map (bit e) [7, 6, 5, 4, 3, 2, 1]"

definition double_3_14 :: real where
  \<comment> \<open>The double nearest to 3.14, the value of the literal \<open>3.14\<close>.\<close>
  "double_3_14 = 7070651414971679 / 2 ^ 51"

definition write_cursor_ok :: "BitStream \<Rightarrow> bool" where
  "write_cursor_ok s \<longleftrightarrow>
     writeBitPosition s = 7 \<or> (writeBitPosition s < 7 \<and> writeBytePosition s < length (data s))"

definition bit_at :: "buffer \<Rightarrow> nat \<Rightarrow> bool" where
  "bit_at d k \<longleftrightarrow> k div 8 < length d \<and> bit (d ! (k div 8)) (7 - k mod 8)"

definition read_position :: "BitStream \<Rightarrow> nat" where
  "read_position s = 8 * readBytePosition s + (7 - readBitPosition s)"

fun acc_bits :: "int \<Rightarrow> bool list \<Rightarrow> int" where
  "acc_bits v [] = v"
| "acc_bits v (b # bs) = acc_bits (2 * v + of_bool b) bs"

definition byte_from :: "buffer \<Rightarrow> nat \<Rightarrow> 8 word" where
  "byte_from d pos = word_of_int (acc_bits 0 (map (bit_at d) [pos..<pos + 8]))"

definition extended :: "BitStream \<Rightarrow> BitStream \<Rightarrow> bool" where
  "extended s s' \<longleftrightarrow>
     byteCount s' = length (data s') \<and> readBitPosition s' \<le> 7 \<and>
     data s' = data s @ replicate (length (data s') - length (data s)) 0 \<and>
     writeBitPosition s' = writeBitPosition s \<and>
     writeBytePosition s' =
       (if length (data s') = length (data s) then writeBytePosition s else length (data s'))"

definition char_bits :: "int \<Rightarrow> bool list" where
  "char_bits c = map (bit c) [7, 6, 5, 4, 3, 2, 1, 0]"

section \<open>Basic facts\<close>

lemma new_empty: "new_BitStream None =
   \<lparr> data = [], byteCount = 0, readBytePosition = 0, readBitPosition = 7,
     writeBytePosition = 0, writeBitPosition = 7, byte = None \<rparr>"
  by (simp add: new_BitStream_def Buffer_alloc_def)

subsection \<open>The 32-bit operators on bytes\<close>

lemma bit_ToInt32: "bit (ToInt32 x) n = bit x (min 31 n)"
  by (simp add: ToInt32_def bit_signed_take_bit_iff)

lemma bit_Number_of_bool: "bit (Number_of_bool v) n = (v \<and> n = 0)"
  by (simp add: Number_of_bool_def bit_simps)

lemma js_or_byte_bit:
  assumes "k \<le> 7"
  shows "js_or (uint (x :: 8 word)) (js_shl (Number_of_bool v) k)
           = uint (x OR push_bit k (of_bool v))"
  using assms
  by (intro bit_eqI) (auto simp: js_or_def js_shl_def bit_ToInt32 bit_Number_of_bool bit_simps min_def
        dest: bit_imp_le_length)

lemma mask_at_pow: "k \<le> 7 \<Longrightarrow> mask_at k = 2 ^ k"
proof -
  assume "k \<le> 7"
  then have "k \<in> {0, 1, 2, 3, 4, 5, 6, 7}" by auto
  then show ?thesis by (auto simp: mask_at_def mask_table_def)
qed

lemma js_read_bit:
  assumes "k \<le> 7"
  shows "js_shr (js_and (uint (x :: 8 word)) (mask_at k)) k = of_bool (bit x k)"
  using assms
  by (intro bit_eqI) (auto simp: js_shr_def js_and_def mask_at_pow bit_ToInt32 bit_simps)

subsection \<open>One call of writeBit and of readBit\<close>

text \<open>
  \<open>writeBit\<close> has three cases: at a byte boundary it allocates the buffer anew and sets
  the top bit of the new last byte; inside a byte of the buffer it sets one more bit of that
  byte; inside a byte that is not in the buffer it throws, leaving the stream as it was.
\<close>

lemma writeBit_nonboolean:
  "\<forall>v. b \<noteq> JBoolean v \<Longrightarrow> writeBit b s = (Inl InvalidArgument, s)"
  by (cases b) (auto simp: writeBit_def throw_def)

lemma update_last: "length xs = m \<Longrightarrow> (xs @ [a])[m := b] = xs @ [b]"
  by auto

lemma length_grown: "length (grown buf n) = n"
  by (simp add: grown_def)

lemma grown_Suc_update: "(grown buf (Suc n))[n := 0] = grown buf n @ [0]"
proof (cases "n < length buf")
  case True
  then show ?thesis by (simp add: grown_def take_Suc_conv_app_nth update_last)
next
  case False
  then have "Suc n - length buf = Suc (n - length buf)" by simp
  then have "grown buf (Suc n) = grown buf n @ [0]"
    using False by (simp add: grown_def replicate_append_same)
  then show ?thesis by (simp add: update_last length_grown)
qed

lemma resize_for_write_eq:
  "resize_for_write s =
     (Inr (), s\<lparr>data := grown (data s) (writeBytePosition s) @ [0],
                byteCount := writeBytePosition s + 1\<rparr>)"
proof -
  have "Buffer_copy (data s) (Buffer_alloc (Suc n)) = grown (data s) (Suc n)" for n
    by (simp add: Buffer_copy_def Buffer_alloc_def grown_def drop_replicate del: replicate.simps)
  then show ?thesis
    by (simp add: resize_for_write_def put_byte_def writeUInt8_def Let_def
        grown_Suc_update length_grown)
qed

lemma bit_value_fresh:
  "js_or 0 (js_shl (Number_of_bool v) 7) = (if v then 128 else 0)"
  using js_or_byte_bit [of 7 0 v] by simp

lemma writeBit_aligned:
  assumes "writeBitPosition s = 7"
  shows "writeBit (JBoolean v) s =
     (Inr (), s\<lparr>data := grown (data s) (writeBytePosition s) @ [if v then 128 else 0],
                byteCount := writeBytePosition s + 1,
                writeBitPosition := 6\<rparr>)"
proof -
  have len: "length (grown (data s) (writeBytePosition s)) = writeBytePosition s"
    by (simp add: length_grown)
  have b: "0 \<le> uint (w :: 8 word) \<and> uint w \<le> 255" for w
    using uint_bounded [of w] by simp
  show ?thesis
    using assms len
    by (simp add: writeBit_def bind_def resize_for_write_eq get_byte_def put_byte_def
        readUInt8_def writeUInt8_def advance_write_def return_def bit_value_fresh nth_append
        update_last)
qed

lemma writeBit_inbyte:
  assumes "writeBitPosition s < 7" and "writeBytePosition s < length (data s)"
  shows "writeBit (JBoolean v) s =
     (Inr (), (s\<lparr>data := (data s)[writeBytePosition s :=
                         data s ! writeBytePosition s OR push_bit (writeBitPosition s) (of_bool v)]\<rparr>)
              \<lparr>writeBitPosition := (if writeBitPosition s = 0 then 7 else writeBitPosition s - 1),
               writeBytePosition := (if writeBitPosition s = 0 then writeBytePosition s + 1
                                     else writeBytePosition s)\<rparr>)"
proof -
  have b: "0 \<le> uint (w :: 8 word) \<and> uint w \<le> 255" for w
    using uint_bounded [of w] by simp
  show ?thesis
    using assms
    by (simp add: writeBit_def bind_def get_byte_def put_byte_def
        readUInt8_def writeUInt8_def advance_write_def return_def js_or_byte_bit b)
qed

lemma writeBit_outside:
  assumes "writeBitPosition s \<noteq> 7" and "length (data s) \<le> writeBytePosition s"
  shows "writeBit (JBoolean v) s = (Inl OutOfRange, s)"
  using assms by (simp add: writeBit_def bind_def get_byte_def readUInt8_def return_def)

lemma readBit_inside:
  assumes "readBytePosition s < byteCount s" and "readBytePosition s < length (data s)"
    and "readBitPosition s \<le> 7"
  shows "readBit s =
     (Inr (of_bool (bit (data s ! readBytePosition s) (readBitPosition s))),
      s\<lparr>readBitPosition := (if readBitPosition s = 0 then 7 else readBitPosition s - 1),
        readBytePosition := (if readBitPosition s = 0 then readBytePosition s + 1
                             else readBytePosition s)\<rparr>)"
  using assms
  by (simp add: readBit_def bind_def get_byte_def readUInt8_def return_def advance_read_def
      js_read_bit)

subsection \<open>Runs of bits inside one byte\<close>

lemma bit_255: "bit (255::int) m = (m < 8)"
proof -
  have "(255::int) = mask 8" by (simp add: mask_eq_exp_minus_1)
  then show ?thesis by (simp only: bit_mask_iff) simp
qed

lemma bit_128: "bit (128::int) m = (m = 7)"
proof -
  have "(128::int) = 2 ^ 7" by simp
  then show ?thesis by (simp only: bit_exp_iff) simp
qed

lemma bit_127: "bit (127::int) m = (m < 7)"
proof -
  have "(127::int) = mask 7" by (simp add: mask_eq_exp_minus_1)
  then show ?thesis by (simp only: bit_mask_iff) simp
qed

lemma bit_js_shl1: "m < 30 \<Longrightarrow> bit (js_shl n (Suc 0)) (Suc m) = bit n m"
proof -
  assume m: "m < 30"
  have "bit (js_shl n (Suc 0)) (Suc m) = bit (push_bit 1 (ToInt32 n)) (Suc m)"
    using m by (simp add: js_shl_def bit_ToInt32 min_def del: push_bit_of_Suc_0)
  also have "\<dots> = bit (ToInt32 n) m"
    by (simp only: bit_push_bit_iff) simp
  also have "\<dots> = bit n m"
    using m by (simp add: bit_ToInt32 min_def)
  finally show ?thesis .
qed

lemma byte_loop_bits:
  "k \<le> 8 \<Longrightarrow> byte_loop k n = writeBit_seq (map (\<lambda>i. bit n (7 - i)) [0..<k])"
proof (induction k arbitrary: n)
  case 0
  then show ?case by simp
next
  case (Suc k)
  have top: "(js_ushr (js_and n 0x80) 7 = 1) = bit n 7"
  proof -
    have "js_ushr (js_and n 0x80) 7 = of_bool (bit n 7)"
      by (intro bit_eqI) (auto simp: js_ushr_def js_and_def ToUint32_def bit_ToInt32 bit_simps bit_128)
    then show ?thesis by simp
  qed
  define n' where "n' = js_and (js_shl n 1) 0xFF"
  have rest: "bit n' (7 - i) = bit n (7 - Suc i)" if "i < k" for i
  proof -
    define m where "m = 6 - i"
    from that Suc.prems have e: "7 - i = Suc m" "7 - Suc i = m" and l: "m < 7"
      by (simp_all add: m_def)
    show ?thesis
      unfolding e using l
      by (simp add: n'_def js_and_def bit_and_iff bit_ToInt32 min_def bit_127 bit_js_shl1)
  qed
  have step: "byte_loop (Suc k) n = bind (writeBit (JBoolean (bit n 7))) (\<lambda>_. byte_loop k n')"
    by (simp add: top n'_def)
  have ih: "byte_loop k n' = writeBit_seq (map (\<lambda>i. bit n' (7 - i)) [0..<k])"
    using Suc.IH [of n'] Suc.prems by simp
  have m2: "map (\<lambda>i. bit n' (7 - i)) [0..<k] = map (\<lambda>i. bit n (7 - Suc i)) [0..<k]"
    by (rule map_cong) (simp_all add: rest)
  have m1: "map (\<lambda>i. bit n (7 - i)) [0..<Suc k]
          = bit n 7 # map (\<lambda>i. bit n (7 - Suc i)) [0..<k]"
    by (simp add: upt_conv_Cons map_Suc_upt [symmetric] del: upt_Suc)
  show ?case
    by (simp only: step ih m2 m1 writeBit_seq.simps)
qed

lemma writeBit_seq_inbyte:
  assumes "writeBitPosition s = w" and "w < 7" and "writeBytePosition s < length (data s)"
    and "length bs \<le> w + 1"
  shows "writeBit_seq bs s =
     (Inr (), s\<lparr>data := (data s)[writeBytePosition s :=
                         data s ! writeBytePosition s OR push_bit (w + 1 - length bs) (bl_val bs)],
               writeBitPosition := (if length bs = w + 1 then 7 else w - length bs),
               writeBytePosition := (if length bs = w + 1 then writeBytePosition s + 1
                                     else writeBytePosition s)\<rparr>)"
  using assms
proof (induction bs arbitrary: s w)
  case Nil
  then show ?case by (simp add: return_def)
next
  case (Cons b bs)
  let ?x = "data s ! writeBytePosition s"
  let ?s1 = "(s\<lparr>data := (data s)[writeBytePosition s := ?x OR push_bit w (of_bool b)]\<rparr>)
              \<lparr>writeBitPosition := (if w = 0 then 7 else w - 1),
               writeBytePosition := (if w = 0 then writeBytePosition s + 1
                                     else writeBytePosition s)\<rparr>"
  have w1: "writeBit (JBoolean b) s = (Inr (), ?s1)"
    using Cons.prems writeBit_inbyte [of s b] by simp
  show ?case
  proof (cases bs)
    case Nil
    then show ?thesis
      using w1 Cons.prems by (cases "w = 0") (simp_all add: bind_def return_def)
  next
    case (Cons c cs)
    with Cons.prems have wpos: "0 < w" "length bs \<le> (w - 1) + 1" "w - 1 < 7" by simp_all
    have ih: "writeBit_seq bs ?s1 =
       (Inr (), ?s1\<lparr>data := (data ?s1)[writeBytePosition ?s1 :=
                         data ?s1 ! writeBytePosition ?s1 OR push_bit ((w - 1) + 1 - length bs) (bl_val bs)],
               writeBitPosition := (if length bs = (w - 1) + 1 then 7 else (w - 1) - length bs),
               writeBytePosition := (if length bs = (w - 1) + 1 then writeBytePosition ?s1 + 1
                                     else writeBytePosition ?s1)\<rparr>)"
      using wpos Cons.prems by (intro Cons.IH) simp_all
    have pb: "push_bit w (of_bool b) OR push_bit (w - length bs) (bl_val bs)
                = push_bit (w - length bs) (push_bit (length bs) (of_bool b) OR bl_val bs)"
      using wpos by (simp add: push_bit_or push_bit_push_bit split del: split_of_bool)
    have "writeBit_seq (b # bs) s = writeBit_seq bs ?s1"
      by (simp only: writeBit_seq.simps bind_def w1 prod.case sum.case)
    also note ih
    finally show ?thesis
      using wpos Cons.prems
      by (simp add: or.assoc split del: split_of_bool)
  qed
qed

lemma writeBit_seq_aligned:
  assumes "writeBitPosition s = 7" and "bs \<noteq> []" and "length bs \<le> 8"
  shows "writeBit_seq bs s =
     (Inr (), s\<lparr>data := grown (data s) (writeBytePosition s) @ [push_bit (8 - length bs) (bl_val bs)],
               byteCount := writeBytePosition s + 1,
               writeBitPosition := (if length bs = 8 then 7 else 7 - length bs),
               writeBytePosition := (if length bs = 8 then writeBytePosition s + 1
                                     else writeBytePosition s)\<rparr>)"
proof -
  from assms obtain b cs where bs: "bs = b # cs" by (cases bs) auto
  let ?g = "grown (data s) (writeBytePosition s)"
  let ?s1 = "s\<lparr>data := ?g @ [if b then 128 else 0],
                byteCount := writeBytePosition s + 1, writeBitPosition := 6\<rparr>"
  have w1: "writeBit (JBoolean b) s = (Inr (), ?s1)"
    using assms by (simp add: writeBit_aligned)
  have w2: "writeBit_seq cs ?s1 =
     (Inr (), ?s1\<lparr>data := (data ?s1)[writeBytePosition ?s1 :=
                         data ?s1 ! writeBytePosition ?s1 OR push_bit (6 + 1 - length cs) (bl_val cs)],
               writeBitPosition := (if length cs = 6 + 1 then 7 else 6 - length cs),
               writeBytePosition := (if length cs = 6 + 1 then writeBytePosition ?s1 + 1
                                     else writeBytePosition ?s1)\<rparr>)"
    using assms bs by (intro writeBit_seq_inbyte) (simp_all add: length_grown)
  have "writeBit_seq bs s = writeBit_seq cs ?s1"
    unfolding bs by (simp only: writeBit_seq.simps bind_def w1 prod.case sum.case)
  also note w2
  finally show ?thesis
    using assms bs
    by (simp add: nth_append length_grown update_last split del: split_of_bool)
qed

lemma bit_bl_val:
  "length bs \<le> 8 \<Longrightarrow> bit (bl_val bs) j = (j < length bs \<and> bs ! (length bs - 1 - j))"
proof (induction bs)
  case Nil
  then show ?case by simp
next
  case (Cons b bs)
  then have ih: "bit (bl_val bs) j = (j < length bs \<and> bs ! (length bs - 1 - j))" by simp
  have "bit (push_bit (length bs) (of_bool b) :: 8 word) j = (b \<and> j = length bs)"
    using Cons.prems by (auto simp: bit_simps)
  then show ?case
    by (auto simp: bit_or_iff ih nth_Cons' less_Suc_eq)
qed

lemma bl_val_byte: "bl_val (map (\<lambda>i. bit n (7 - i)) [0..<8]) = (word_of_int n :: 8 word)"
proof (rule bit_word_eqI)
  fix j assume "j < LENGTH(8)"
  then have j: "j < 8" by simp
  then have "7 - j < 8" "7 - (7 - j) = j" by simp_all
  then show "bit (bl_val (map (\<lambda>i. bit n (7 - i)) [0..<8])) j = bit (word_of_int n :: 8 word) j"
    using j by (simp add: bit_bl_val bit_word_of_int_iff del: upt.simps)
qed

lemma writeByte_aligned:
  assumes "writeBitPosition s = 7"
  shows "writeByte n s =
     (Inr (), s\<lparr>data := grown (data s) (writeBytePosition s) @ [word_of_int n],
               byteCount := writeBytePosition s + 1,
               writeBytePosition := writeBytePosition s + 1\<rparr>)"
proof -
  let ?bs = "map (\<lambda>i. bit n (7 - i)) [0..<8]"
  have l: "length ?bs = 8" "?bs \<noteq> []" by simp_all
  have "writeByte n s = writeBit_seq ?bs s"
    by (simp only: writeByte_def byte_loop_bits [OF order_refl])
  also have "\<dots> = (Inr (), s\<lparr>data := grown (data s) (writeBytePosition s) @ [push_bit (8 - length ?bs) (bl_val ?bs)],
               byteCount := writeBytePosition s + 1,
               writeBitPosition := (if length ?bs = 8 then 7 else 7 - length ?bs),
               writeBytePosition := (if length ?bs = 8 then writeBytePosition s + 1
                                     else writeBytePosition s)\<rparr>)"
    using assms l by (intro writeBit_seq_aligned) simp_all
  also have "\<dots> = (Inr (), s\<lparr>data := grown (data s) (writeBytePosition s) @ [word_of_int n],
               byteCount := writeBytePosition s + 1,
               writeBytePosition := writeBytePosition s + 1\<rparr>)"
    using assms by (simp only: l bl_val_byte) simp
  finally show ?thesis .
qed

lemma writeBits_loop_bits:
  "k \<le> 32 \<Longrightarrow> writeBits_loop n k = writeBit_seq (map (\<lambda>i. bit n (k - 1 - i)) [0..<k])"
proof (induction k)
  case 0
  then show ?case by simp
next
  case (Suc k)
  have top: "(js_and (js_shr n k) 0x01 = 1) = bit n k"
  proof -
    have "js_and (js_shr n k) 0x01 = of_bool (bit n k)"
      using Suc.prems
      by (intro bit_eqI) (auto simp: js_shr_def js_and_def bit_ToInt32 bit_simps min_def)
    then show ?thesis by simp
  qed
  have m1: "map (\<lambda>i. bit n (Suc k - 1 - i)) [0..<Suc k]
          = bit n k # map (\<lambda>i. bit n (k - 1 - i)) [0..<k]"
    by (simp add: upt_conv_Cons map_Suc_upt [symmetric] del: upt_Suc)
  have ih: "writeBits_loop n k = writeBit_seq (map (\<lambda>i. bit n (k - 1 - i)) [0..<k])"
    using Suc by simp
  show ?case
    by (simp only: writeBits_loop.simps top ih m1 writeBit_seq.simps)
qed

lemma ToInt32_id: "- (2 ^ 31) \<le> x \<Longrightarrow> x < 2 ^ 31 \<Longrightarrow> ToInt32 x = x"
  unfolding ToInt32_def by (rule signed_take_bit_int_eq_self) simp_all

lemma js_accumulate:
  assumes "0 \<le> val" and "val < 2 ^ 30"
  shows "js_or (js_shl val 1) (of_bool b) = 2 * val + of_bool b"
proof -
  have v: "ToInt32 val = val"
    using assms by (intro ToInt32_id) simp_all
  have "- (2 ^ 31) \<le> push_bit 1 val" "push_bit 1 val < 2 ^ 31"
    using assms by (simp_all add: push_bit_eq_mult)
  then have s: "js_shl val 1 = push_bit 1 val"
    by (simp only: js_shl_def v) (simp add: ToInt32_id)
  have o: "ToInt32 (of_bool b) = of_bool b"
    by (intro ToInt32_id) simp_all
  have "push_bit 1 val + of_bool b = push_bit 1 val OR of_bool b"
    by (rule disjunctive_add) (auto simp: bit_simps bit_0)
  then show ?thesis
    using \<open>- (2 ^ 31) \<le> push_bit 1 val\<close> \<open>push_bit 1 val < 2 ^ 31\<close>
    by (simp only: js_or_def s o ToInt32_id) (simp add: push_bit_eq_mult)
qed

lemma readBits_loop_inbyte:
  assumes "readBitPosition s = r" and "r \<le> 7"
    and "readBytePosition s < byteCount s" and "readBytePosition s < length (data s)"
    and "n \<le> r + 1" and "0 \<le> val" and "val < 2 ^ (30 - n)"
  shows "readBits_loop n val s =
     (Inr (val * 2 ^ n + take_bit n (drop_bit (r + 1 - n) (uint (data s ! readBytePosition s)))),
      s\<lparr>readBitPosition := (if n = r + 1 then 7 else r - n),
        readBytePosition := (if n = r + 1 then readBytePosition s + 1 else readBytePosition s)\<rparr>)"
  using assms
proof (induction n arbitrary: s r val)
  case 0
  then show ?case by (simp add: return_def)
next
  case (Suc n)
  let ?x = "data s ! readBytePosition s"
  let ?b = "of_bool (bit ?x r) :: int"
  let ?s1 = "s\<lparr>readBitPosition := (if r = 0 then 7 else r - 1),
        readBytePosition := (if r = 0 then readBytePosition s + 1 else readBytePosition s)\<rparr>"
  have r1: "readBit s = (Inr ?b, ?s1)"
    using Suc.prems readBit_inside [of s] by simp
  have "(2::int) ^ (30 - Suc n) \<le> 2 ^ 30" by (intro power_increasing) simp_all
  with Suc.prems have vb: "val < 2 ^ 30" by linarith
  have acc: "js_or (js_shl val 1) ?b = 2 * val + ?b"
    using Suc.prems vb by (intro js_accumulate) simp_all
  have unf: "readBits_loop (Suc n) val s = readBits_loop n (2 * val + ?b) ?s1"
    by (simp only: readBits_loop.simps bind_def r1 prod.case sum.case acc)
  have tb: "take_bit (Suc n) (drop_bit (r - n) (uint ?x))
              = 2 ^ n * ?b + take_bit n (drop_bit (r - n) (uint ?x))"
    using Suc.prems
    by (simp add: take_bit_Suc_from_most bit_drop_bit_eq bit_uint_iff split del: split_of_bool)
  have b_mod: "?b = drop_bit r (uint ?x) mod 2"
    using Suc.prems
    by (simp add: bit_iff_odd_drop_bit [of "uint ?x" r, symmetric] bit_uint_iff
        flip: of_bool_odd_eq_mod_2 split del: split_of_bool)
  show ?case
  proof (cases "n = 0")
    case True
    then show ?thesis
      using Suc.prems b_mod unfolding unf
      by (cases "r = 0") (simp_all add: return_def split del: split_of_bool)
  next
    case False
    with Suc.prems have rpos: "0 < r" "n \<le> (r - 1) + 1" "r - 1 \<le> 7" by simp_all
    from Suc.prems have "n \<le> 7" by simp
    then have "(2::int) ^ (30 - n) = 2 * 2 ^ (30 - Suc n)"
      by (simp add: Suc_diff_le flip: power_Suc)
    with Suc.prems have vb': "2 * val + ?b < 2 ^ (30 - n)" "0 \<le> 2 * val + ?b"
      by (simp_all split del: split_of_bool) (cases "bit ?x r"; simp)+
    have ih: "readBits_loop n (2 * val + ?b) ?s1 =
       (Inr ((2 * val + ?b) * 2 ^ n
            + take_bit n (drop_bit ((r - 1) + 1 - n) (uint (data ?s1 ! readBytePosition ?s1)))),
        ?s1\<lparr>readBitPosition := (if n = (r - 1) + 1 then 7 else (r - 1) - n),
          readBytePosition := (if n = (r - 1) + 1 then readBytePosition ?s1 + 1
                               else readBytePosition ?s1)\<rparr>)"
      using rpos vb' Suc.prems by (intro Suc.IH) simp_all
    show ?thesis
      unfolding unf ih using rpos Suc.prems tb
      by (simp add: algebra_simps split del: split_of_bool)
  qed
qed

lemma readBits_inbyte:
  assumes "readBitPosition s = r" and "r \<le> 7"
    and "readBytePosition s < byteCount s" and "readBytePosition s < length (data s)"
    and "n \<le> r + 1"
  shows "readBits n s =
     (Inr (take_bit n (drop_bit (r + 1 - n) (uint (data s ! readBytePosition s)))),
      s\<lparr>byte := Some (uint (data s ! readBytePosition s)),
        readBitPosition := (if n = r + 1 then 7 else r - n),
        readBytePosition := (if n = r + 1 then readBytePosition s + 1 else readBytePosition s)\<rparr>)"
proof -
  let ?s0 = "s\<lparr>byte := Some (uint (data s ! readBytePosition s))\<rparr>"
  have "readBits n s = readBits_loop n 0 ?s0"
    using assms by (simp add: readBits_def bind_def get_byte_def readUInt8_def return_def)
  also have "\<dots> = (Inr (0 * 2 ^ n + take_bit n (drop_bit (r + 1 - n) (uint (data ?s0 ! readBytePosition ?s0)))),
      ?s0\<lparr>readBitPosition := (if n = r + 1 then 7 else r - n),
        readBytePosition := (if n = r + 1 then readBytePosition ?s0 + 1 else readBytePosition ?s0)\<rparr>)"
    using assms by (intro readBits_loop_inbyte) simp_all
  finally show ?thesis by simp
qed

lemma readByte_aligned:
  assumes "readBitPosition s = 7"
    and "readBytePosition s < byteCount s" and "readBytePosition s < length (data s)"
  shows "readByte s =
     (Inr (uint (data s ! readBytePosition s)),
      s\<lparr>byte := Some (uint (data s ! readBytePosition s)),
        readBytePosition := readBytePosition s + 1\<rparr>)"
proof -
  have "take_bit 8 (uint (data s ! readBytePosition s)) = uint (data s ! readBytePosition s)"
    using uint_bounded [of "data s ! readBytePosition s"] by (simp add: take_bit_int_eq_self)
  then show ?thesis
    using assms readBits_inbyte [of s 7 8] by (simp add: readByte_def)
qed

lemma upt_7: "[0..<7] = [0, 1, 2, 3, 4, 5, 6]"
  by (simp add: upt_conv_Cons)

lemma upt_8: "[0..<8] = [0, 1, 2, 3, 4, 5, 6, 7]"
  by (simp add: upt_conv_Cons)

lemma upt_4: "[0..<4] = [0, 1, 2, 3]"
  by (simp add: upt_conv_Cons)

lemma byte_loop_7:
  "byte_loop 7 n = writeBit_seq [bit n 7, bit n 6, bit n 5, bit n 4, bit n 3, bit n 2, bit n 1]"
  by (simp add: byte_loop_bits upt_7 del: upt.simps)

lemma writeBits_4:
  "writeBits n 4 = writeBit_seq [bit n 3, bit n 2, bit n 1, bit n 0]"
  by (simp add: writeBits_def writeBits_loop_bits upt_4 del: upt.simps)

lemmas js_defs = js_ushr_def js_shr_def js_shl_def js_and_def js_or_def ToInt32_def ToUint32_def
  js_logical_and_def

subsection \<open>Whole bytes at a byte boundary\<close>

lemma grown_self: "grown buf (length buf) = buf"
  by (simp add: grown_def)

lemma write_chars_aligned:
  assumes "writeBitPosition s = 7"
  shows "write_chars cs s = (Inr (), after_bytes s (map word_of_int cs))"
  using assms
proof (induction cs arbitrary: s)
  case Nil
  then show ?case by (simp add: return_def after_bytes_def)
next
  case (Cons c cs)
  let ?s1 = "s\<lparr>data := grown (data s) (writeBytePosition s) @ [word_of_int c],
               byteCount := writeBytePosition s + 1,
               writeBytePosition := writeBytePosition s + 1\<rparr>"
  have w: "writeByte c s = (Inr (), ?s1)"
    using Cons.prems by (rule writeByte_aligned)
  have ih: "write_chars cs ?s1 = (Inr (), after_bytes ?s1 (map word_of_int cs))"
    using Cons.prems by (intro Cons.IH) simp
  have g: "grown (grown (data s) (writeBytePosition s) @ [x]) (Suc (writeBytePosition s))
             = grown (data s) (writeBytePosition s) @ [x]" for x :: "8 word"
    using grown_self [of "grown (data s) (writeBytePosition s) @ [x]"]
    by (simp add: length_grown)
  have "write_chars (c # cs) s = write_chars cs ?s1"
    by (simp only: write_chars.simps bind_def w prod.case sum.case)
  also note ih
  finally show ?case
    by (simp add: after_bytes_def g)
qed

lemma readBytes_loop_aligned:
  assumes "byteCount s = length (data s)" and "readBitPosition s = 7"
    and "writeBitPosition val = 7" and "writeBytePosition val = length (data val)"
    and "byteCount val = length (data val)"
  shows "readBytes_loop n val s =
     (Inr (val\<lparr>data := data val @ take n (drop (readBytePosition s) (data s)),
               byteCount := length (data val) + min n (length (data s) - readBytePosition s),
               writeBytePosition := length (data val) + min n (length (data s) - readBytePosition s)\<rparr>),
      s\<lparr>byte := (if min n (length (data s) - readBytePosition s) = 0 then byte s
                  else Some (uint (data s ! (readBytePosition s
                         + min n (length (data s) - readBytePosition s) - 1)))),
        readBytePosition := readBytePosition s + min n (length (data s) - readBytePosition s)\<rparr>)"
  using assms
proof (induction n arbitrary: val s)
  case 0
  then show ?case by (simp add: return_def)
next
  case (Suc n)
  let ?r = "readBytePosition s"
  show ?case
  proof (cases "?r < length (data s)")
    case False
    with Suc.prems show ?thesis
      by (simp add: length_BitStream_def return_def)
  next
    case True
    let ?x = "data s ! ?r"
    let ?s1 = "s\<lparr>byte := Some (uint ?x), readBytePosition := ?r + 1\<rparr>"
    let ?v1 = "val\<lparr>data := data val @ [?x], byteCount := length (data val) + 1,
                    writeBytePosition := length (data val) + 1\<rparr>"
    have r: "readByte s = (Inr (uint ?x), ?s1)"
      using True Suc.prems by (intro readByte_aligned) simp_all
    have "writeByte (uint ?x) val =
       (Inr (), val\<lparr>data := grown (data val) (writeBytePosition val) @ [word_of_int (uint ?x)],
               byteCount := writeBytePosition val + 1,
               writeBytePosition := writeBytePosition val + 1\<rparr>)"
      using Suc.prems by (intro writeByte_aligned) simp
    then have w: "writeByte (uint ?x) val = (Inr (), ?v1)"
      using Suc.prems by (simp add: grown_self)
    have unf: "readBytes_loop (Suc n) val s = readBytes_loop n ?v1 ?s1"
      using True Suc.prems
      by (simp add: length_BitStream_def bind_def r on_other_def w return_def)
    have ih: "readBytes_loop n ?v1 ?s1 =
     (Inr (?v1\<lparr>data := data ?v1 @ take n (drop (readBytePosition ?s1) (data ?s1)),
               byteCount := length (data ?v1) + min n (length (data ?s1) - readBytePosition ?s1),
               writeBytePosition := length (data ?v1) + min n (length (data ?s1) - readBytePosition ?s1)\<rparr>),
      ?s1\<lparr>byte := (if min n (length (data ?s1) - readBytePosition ?s1) = 0 then byte ?s1
                  else Some (uint (data ?s1 ! (readBytePosition ?s1
                         + min n (length (data ?s1) - readBytePosition ?s1) - 1)))),
        readBytePosition := readBytePosition ?s1 + min n (length (data ?s1) - readBytePosition ?s1)\<rparr>)"
      using Suc.prems by (intro Suc.IH) simp_all
    have d: "drop ?r (data s) = ?x # drop (Suc ?r) (data s)"
      using True by (simp add: Cons_nth_drop_Suc)
    have m: "min (Suc n) (length (data s) - ?r) = Suc (min n (length (data s) - Suc ?r))"
      using True by (auto simp: min_def)
    show ?thesis
      unfolding unf ih m d by simp
  qed
qed

subsection \<open>The bits written onto a fresh stream\<close>

text \<open>
  Each \<open>writeBit\<close> keeps the relation \<open>bits_written\<close> between the stream and the list of
  bits written so far, and \<open>readBit\<close> reads that list off the buffer.
\<close>

lemma bits_written_new: "bits_written (new_BitStream None) [] 0 0"
  by (simp add: bits_written_def new_empty)

lemma bit_top_byte: "p < 8 \<Longrightarrow> bit (if b then 128 else 0 :: 8 word) (7 - p) = (b \<and> p = 0)"
  by (cases b) (auto simp: bit_128)

lemma writeBit_keeps_written:
  assumes "bits_written s bs q j"
  shows "\<exists>s'. writeBit (JBoolean b) s = (Inr (), s') \<and>
           bits_written s' (bs @ [b]) (if j = 7 then q + 1 else q) (if j = 7 then 0 else j + 1) \<and>
           readBytePosition s' = readBytePosition s \<and> readBitPosition s' = readBitPosition s"
proof (cases "j = 0")
  case True
  with assms have a: "writeBitPosition s = 7" "writeBytePosition s = q" "length (data s) = q"
    "length bs = 8 * q" "byteCount s = length (data s)"
    and old: "\<And>i p. i < q \<Longrightarrow> p < 8 \<Longrightarrow>
                bit (data s ! i) (7 - p) = (8 * i + p < length bs \<and> bs ! (8 * i + p))"
    by (simp_all add: bits_written_def)
  let ?s' = "s\<lparr>data := grown (data s) (writeBytePosition s) @ [if b then 128 else 0],
                byteCount := writeBytePosition s + 1, writeBitPosition := 6\<rparr>"
  have w: "writeBit (JBoolean b) s = (Inr (), ?s')"
    using a by (simp add: writeBit_aligned)
  have g: "grown (data s) q = data s"
    using a grown_self [of "data s"] by simp
  have bw: "bits_written ?s' (bs @ [b]) q 1"
    unfolding bits_written_def
  proof (intro conjI allI impI)
    fix i p assume i: "i < length (data ?s')" and p: "p < (8::nat)"
    show "bit (data ?s' ! i) (7 - p) = (8 * i + p < length (bs @ [b]) \<and> (bs @ [b]) ! (8 * i + p))"
    proof (cases "i < q")
      case True
      then have "8 * i + p < length bs" using p a by simp
      then show ?thesis
        using True p a g old [of i p] by (simp add: nth_append)
    next
      case False
      with i a g have "i = q" by simp
      then show ?thesis
        using p a g by (auto simp: nth_append bit_top_byte)
    qed
  qed (use a g in simp_all)
  show ?thesis
    unfolding w using bw True by (intro exI [of _ ?s']) simp
next
  case False
  with assms have a: "writeBitPosition s = 7 - j" "writeBytePosition s = q"
    "length (data s) = q + 1" "j < 8" "0 < j"
    "length bs = 8 * q + j" "byteCount s = length (data s)"
    and old: "\<And>i p. i < q + 1 \<Longrightarrow> p < 8 \<Longrightarrow>
                bit (data s ! i) (7 - p) = (8 * i + p < length bs \<and> bs ! (8 * i + p))"
    by (simp_all add: bits_written_def)
  let ?d' = "(data s)[q := data s ! q OR push_bit (7 - j) (of_bool b)]"
  let ?s' = "(s\<lparr>data := ?d'\<rparr>)
              \<lparr>writeBitPosition := (if 7 - j = 0 then 7 else 7 - j - 1),
               writeBytePosition := (if 7 - j = 0 then q + 1 else q)\<rparr>"
  have w: "writeBit (JBoolean b) s = (Inr (), ?s')"
    using a writeBit_inbyte [of s b] by simp
  have newbit: "bit (push_bit (7 - j) (of_bool b) :: 8 word) (7 - p) = (b \<and> p = j)" if "p < 8" for p
    using that a by (auto simp: bit_simps)
  have bw: "bits_written ?s' (bs @ [b]) (if j = 7 then q + 1 else q) (if j = 7 then 0 else j + 1)"
    unfolding bits_written_def
  proof (intro conjI allI impI)
    fix i p assume i: "i < length (data ?s')" and p: "p < (8::nat)"
    show "bit (data ?s' ! i) (7 - p) = (8 * i + p < length (bs @ [b]) \<and> (bs @ [b]) ! (8 * i + p))"
    proof (cases "i = q")
      case True
      then show ?thesis
        using p a old [of q p] newbit [of p]
        by (auto simp: nth_append bit_or_iff)
    next
      case False
      with i a have "i < q" by simp
      then have "8 * i + p < length bs" using p a by simp
      then show ?thesis
        using False \<open>i < q\<close> p a old [of i p] by (simp add: nth_append)
    qed
  qed (use a in simp_all)
  show ?thesis
    unfolding w using bw by (intro exI [of _ ?s']) simp
qed

lemma writeBit_seq_keeps_written:
  assumes "bits_written s bs q j"
  shows "\<exists>s' q' j'. writeBit_seq cs s = (Inr (), s') \<and> bits_written s' (bs @ cs) q' j' \<and>
           readBytePosition s' = readBytePosition s \<and> readBitPosition s' = readBitPosition s"
  using assms
proof (induction cs arbitrary: s bs q j)
  case Nil
  then show ?case by (auto simp: return_def)
next
  case (Cons c cs)
  from writeBit_keeps_written [OF Cons.prems, of c]
  obtain s1 q1 j1 where w: "writeBit (JBoolean c) s = (Inr (), s1)"
    and b1: "bits_written s1 (bs @ [c]) q1 j1"
    and r1: "readBytePosition s1 = readBytePosition s" "readBitPosition s1 = readBitPosition s"
    by blast
  from Cons.IH [OF b1]
  obtain s' q' j' where w': "writeBit_seq cs s1 = (Inr (), s')"
    and b': "bits_written s' ((bs @ [c]) @ cs) q' j'"
    and r': "readBytePosition s' = readBytePosition s1" "readBitPosition s' = readBitPosition s1"
    by blast
  have "writeBit_seq (c # cs) s = (Inr (), s')"
    by (simp add: bind_def w w')
  with b' r1 r' show ?case by auto
qed

lemma readBit_written:
  assumes "bits_written s bs q j"
    and "readBytePosition s = rq" and "readBitPosition s = 7 - rj" and "rj < 8"
    and "8 * rq + rj < length bs"
  shows "\<exists>s'. readBit s = (Inr (Number_of_bool (bs ! (8 * rq + rj))), s') \<and>
           bits_written s' bs q j \<and>
           readBytePosition s' = (if rj = 7 then rq + 1 else rq) \<and>
           readBitPosition s' = 7 - (if rj = 7 then 0 else rj + 1)"
proof -
  from assms have len: "rq < length (data s)" "byteCount s = length (data s)"
    by (auto simp: bits_written_def split: if_splits)
  from assms len have b: "bit (data s ! rq) (7 - rj) = bs ! (8 * rq + rj)"
    by (simp add: bits_written_def)
  let ?s' = "s\<lparr>readBitPosition := (if readBitPosition s = 0 then 7 else readBitPosition s - 1),
        readBytePosition := (if readBitPosition s = 0 then readBytePosition s + 1
                             else readBytePosition s)\<rparr>"
  have r: "readBit s = (Inr (of_bool (bit (data s ! readBytePosition s) (readBitPosition s))), ?s')"
    using assms len by (intro readBit_inside) simp_all
  have bw: "bits_written ?s' bs q j"
    using assms(1) by (simp add: bits_written_def)
  show ?thesis
    unfolding r using assms(2-4) b bw
    by (intro exI [of _ ?s']) (auto simp: Number_of_bool_def)
qed

lemma readBit_seq_written:
  assumes "bits_written s bs q j"
    and "readBytePosition s = rq" and "readBitPosition s = 7 - rj" and "rj < 8"
    and "8 * rq + rj + m \<le> length bs"
  shows "\<exists>s'. readBit_seq m s =
            (Inr (map Number_of_bool (take m (drop (8 * rq + rj) bs))), s')"
  using assms
proof (induction m arbitrary: s rq rj)
  case 0
  then show ?case by (simp add: return_def)
next
  case (Suc m)
  let ?k = "8 * rq + rj"
  from Suc.prems have k: "?k < length bs" by simp
  from readBit_written [OF Suc.prems(1-4) k]
  obtain s1 where r: "readBit s = (Inr (Number_of_bool (bs ! ?k)), s1)"
    and b1: "bits_written s1 bs q j"
    and c1: "readBytePosition s1 = (if rj = 7 then rq + 1 else rq)"
            "readBitPosition s1 = 7 - (if rj = 7 then 0 else rj + 1)"
    by blast
  have n: "8 * (if rj = 7 then rq + 1 else rq) + (if rj = 7 then 0 else rj + 1) = Suc ?k"
    by simp
  have "\<exists>s'. readBit_seq m s1 =
            (Inr (map Number_of_bool (take m (drop (8 * (if rj = 7 then rq + 1 else rq)
                  + (if rj = 7 then 0 else rj + 1)) bs))), s')"
    using Suc.prems b1 c1 by (intro Suc.IH) auto
  then obtain s' where r': "readBit_seq m s1 =
            (Inr (map Number_of_bool (take m (drop (Suc ?k) bs))), s')"
    unfolding n by blast
  have d: "drop ?k bs = bs ! ?k # drop (Suc ?k) bs"
    using k by (simp add: Cons_nth_drop_Suc)
  have "readBit_seq (Suc m) s = (Inr (map Number_of_bool (take (Suc m) (drop ?k bs))), s')"
    unfolding d by (simp add: bind_def r r' return_def)
  then show ?case by blast
qed

subsection \<open>The bits of the float format\<close>

lemma bind_assoc: "bind (bind m f) g = bind m (\<lambda>x. bind (f x) g)"
  by (rule ext) (simp add: bind_def split: prod.splits sum.splits)

lemma bind_return_left: "bind (return x) f = f x"
  by (rule ext) (simp add: bind_def return_def)

lemma writeBit_seq_append:
  "writeBit_seq (xs @ ys) = bind (writeBit_seq xs) (\<lambda>_. writeBit_seq ys)"
  by (induction xs) (simp_all add: bind_return_left bind_assoc)

lemma writeByte_bits:
  "writeByte n = writeBit_seq (map (bit n) [7, 6, 5, 4, 3, 2, 1, 0])"
  by (simp add: writeByte_def byte_loop_bits upt_8 del: upt.simps)

lemma writeBits_7:
  "writeBits n 7 = writeBit_seq (map (bit n) [6, 5, 4, 3, 2, 1, 0])"
  by (simp add: writeBits_def writeBits_loop_bits upt_7 del: upt.simps)

lemma bit_mantissa_low: "k < 8 \<Longrightarrow> bit (js_and m 0xff) k = bit m k"
  by (simp add: js_and_def bit_and_iff bit_ToInt32 bit_255 min_def)

lemma bit_0xff00: "bit (0xff00 :: int) k = (8 \<le> k \<and> k < 16)"
proof -
  have "(0xff00 :: int) = push_bit 8 (mask 8)" by (simp add: mask_eq_exp_minus_1)
  then show ?thesis by (simp only: bit_push_bit_iff bit_mask_iff) auto
qed

lemma bit_0x7f0000: "bit (0x7f0000 :: int) k = (16 \<le> k \<and> k < 23)"
proof -
  have "(0x7f0000 :: int) = push_bit 16 (mask 7)" by (simp add: mask_eq_exp_minus_1)
  then show ?thesis by (simp only: bit_push_bit_iff bit_mask_iff) auto
qed

lemma bit_0xfe: "bit (0xfe :: int) k = (1 \<le> k \<and> k < 8)"
proof -
  have "(0xfe :: int) = push_bit 1 (mask 7)" by (simp add: mask_eq_exp_minus_1)
  then show ?thesis by (simp only: bit_push_bit_iff bit_mask_iff) auto
qed

lemma bit_mantissa_mid: "k < 8 \<Longrightarrow> bit (js_shr (js_and m 0xff00) 8) k = bit m (8 + k)"
  by (simp add: js_shr_def js_and_def bit_drop_bit_eq bit_and_iff bit_ToInt32 bit_0xff00 min_def)

lemma bit_mantissa_high: "k < 7 \<Longrightarrow> bit (js_shr (js_and m 0x7f0000) 16) k = bit m (16 + k)"
  by (simp add: js_shr_def js_and_def bit_drop_bit_eq bit_and_iff bit_ToInt32 bit_0x7f0000 min_def)

lemma bit_exponent_high: "k < 7 \<Longrightarrow> bit (js_shr (js_and e 0xfe) 1) k = bit e (Suc k)"
  by (simp add: js_shr_def js_and_def bit_drop_bit_eq bit_and_iff bit_ToInt32 bit_127 min_def)

lemma mantissa_low_bits:
  "map (bit (js_and m 0xff)) [7, 6, 5, 4, 3, 2, 1, 0] = map (bit m) [7, 6, 5, 4, 3, 2, 1, 0]"
  by (simp add: bit_mantissa_low)

lemma mantissa_mid_bits:
  "map (bit (js_shr (js_and m 0xff00) 8)) [7, 6, 5, 4, 3, 2, 1, 0]
     = map (bit m) [15, 14, 13, 12, 11, 10, 9, 8]"
  using bit_mantissa_mid [of 7 m] bit_mantissa_mid [of 6 m] bit_mantissa_mid [of 5 m]
    bit_mantissa_mid [of 4 m] bit_mantissa_mid [of 3 m] bit_mantissa_mid [of 2 m]
    bit_mantissa_mid [of 1 m] bit_mantissa_mid [of 0 m]
  by simp

lemma mantissa_high_bits:
  "map (bit (js_shr (js_and m 0x7f0000) 16)) [6, 5, 4, 3, 2, 1, 0]
     = map (bit m) [22, 21, 20, 19, 18, 17, 16]"
  using bit_mantissa_high [of 6 m] bit_mantissa_high [of 5 m]
    bit_mantissa_high [of 4 m] bit_mantissa_high [of 3 m] bit_mantissa_high [of 2 m]
    bit_mantissa_high [of 1 m] bit_mantissa_high [of 0 m]
  by simp

lemma exponent_high_bits:
  "map (bit (js_shr (js_and e 0xfe) 1)) [6, 5, 4, 3, 2, 1, 0] = map (bit e) [7, 6, 5, 4, 3, 2, 1]"
  by (simp add: js_shr_def js_and_def bit_drop_bit_eq bit_and_iff bit_ToInt32)
     (simp add: numeral_3_eq_3 numeral_2_eq_2)

lemma exponent_low: "(js_and e 0x01 = 1) = bit e 0"
proof -
  have "js_and e 0x01 = of_bool (bit e 0)"
    by (intro bit_eqI) (auto simp: js_and_def bit_ToInt32 bit_simps min_def)
  then show ?thesis by simp
qed

lemma writeFloat_fields_bits:
  "writeFloat_fields sign e m = writeBit_seq (float_bits sign e m)"
proof -
  have one: "writeBit (JBoolean b) = writeBit_seq [b]" for b
    by (rule ext) (simp add: bind_def return_def split: prod.splits sum.splits)
  show ?thesis
    unfolding writeFloat_fields_def float_bits_def writeByte_bits writeBits_7 exponent_low
      mantissa_low_bits mantissa_mid_bits mantissa_high_bits exponent_high_bits one
    by (simp only: writeBit_seq_append bind_assoc)
qed

lemma float_exponent_3_14: "\<lfloor>log 2 \<bar>double_3_14\<bar>\<rfloor> = 1"
proof -
  have p: "0 < double_3_14" by (simp add: double_3_14_def)
  have "(2::real) powr (of_int 1) \<le> double_3_14 \<and> double_3_14 < 2 powr (of_int (1 + 1))"
    by (simp add: double_3_14_def)
  then have "\<lfloor>log 2 double_3_14\<rfloor> = 1"
    using p by (subst floor_log_eq_powr_iff) simp_all
  with p show ?thesis by simp
qed

lemma float_mantissa_3_14:
  "\<lceil>(\<bar>double_3_14\<bar> / 2 powr (of_int 1) - 1) / 0.00000011920928955078125\<rceil> = 4781507"
  by (simp add: ceiling_eq_iff double_3_14_def)

lemma writeFloat_3_14:
  assumes "\<lfloor>lg double_3_14\<rfloor> = 1"
  shows "writeFloat lg double_3_14 = writeFloat_fields False 128 4781507"
proof -
  have "double_3_14 \<noteq> 0" "\<not> double_3_14 < 0" "\<bar>double_3_14\<bar> = double_3_14"
    by (simp_all add: double_3_14_def)
  then show ?thesis
    unfolding writeFloat_def Let_def using assms float_mantissa_3_14 by simp
qed

lemma float_bits_3_14:
  "float_bits False 128 4781507 =
     [True, True, False, False, False, False, True, True,
      True, True, True, True, False, True, False, True,
      False, True, False, False, True, False, False, False,
      False, True, False, False, False, False, False, False]"
  by (simp add: float_bits_def)

lemma writeFloat_fields_3_14:
  "writeFloat_fields False 128 4781507 (new_BitStream None) =
     (Inr (), \<lparr>data = [0xC3, 0xF5, 0x48, 0x40], byteCount = 4, readBytePosition = 0,
        readBitPosition = 7, writeBytePosition = 4, writeBitPosition = 7, byte = None\<rparr>)"
  by (simp add: new_empty writeFloat_fields_def bind_def writeByte_aligned js_defs grown_def
      writeBit_aligned writeBit_inbyte writeBits_7 return_def)

lemma writeFloat_fields_3_14_preloaded:
  "writeFloat_fields False 128 4781507 (new_BitStream (Some [0, 0, 0, 0])) =
     (Inr (), \<lparr>data = [0xC3, 0xF5, 0x48, 0x40], byteCount = 4, readBytePosition = 0,
        readBitPosition = 7, writeBytePosition = 4, writeBitPosition = 7, byte = Some 0\<rparr>)"
  by (simp add: new_BitStream_def writeFloat_fields_def bind_def writeByte_aligned js_defs
      grown_def writeBit_aligned writeBit_inbyte writeBits_7 return_def)

lemma float_bits_overflow: "float_bits sign e (- 8388608) = float_bits sign e 0"
  by (simp add: float_bits_def)

lemma float_bits_zero: "float_bits False 0 0 = replicate 32 False"
  by (simp add: float_bits_def numeral_eq_Suc)

text \<open>
  Two numbers next to a power of two. For \<open>8 - 2^-50\<close> the exact logarithm is below 3,
  and the double nearest to it is 3: where \<open>Math.log2\<close> returns 3, the exponent is 130, the
  mantissa 0, and the bytes are those of the float 8. For the largest double,
  \<open>(2^53 - 1) * 2^971\<close>, the double nearest to the logarithm is 1024: where \<open>Math.log2\<close>
  returns 1024, \<open>Math.pow\<close> overflows and the 23 mantissa bits written are 0.
\<close>

lemma writeFloat_below_8:
  assumes "\<lfloor>lg (8 - 1 / 2 ^ 50)\<rfloor> = 3"
  shows "writeFloat lg (8 - 1 / 2 ^ 50) (new_BitStream None) =
     (Inr (), \<lparr>data = [0, 0, 0, 0x41], byteCount = 4, readBytePosition = 0,
        readBitPosition = 7, writeBytePosition = 4, writeBitPosition = 7, byte = None\<rparr>)"
proof -
  have a: "\<bar>8 - 1 / 2 ^ 50 :: real\<bar> = 8 - 1 / 2 ^ 50" by simp
  have m: "\<lceil>((8 - 1 / 2 ^ 50 :: real) / 2 powr (of_int 3) - 1) / 0.00000011920928955078125\<rceil> = 0"
    by (simp add: ceiling_eq_iff)
  have "writeFloat lg (8 - 1 / 2 ^ 50) = writeFloat_fields False 130 0"
    unfolding writeFloat_def Let_def a assms m by simp
  then show ?thesis
    by (simp add: new_empty writeFloat_fields_def bind_def writeByte_aligned js_defs grown_def
        writeBit_aligned writeBit_inbyte writeBits_7 return_def)
qed

lemma writeFloat_largest:
  assumes "\<lfloor>lg ((2 ^ 53 - 1) * 2 ^ 971)\<rfloor> = 1024"
  shows "writeFloat lg ((2 ^ 53 - 1) * 2 ^ 971) (new_BitStream None) =
     (Inr (), \<lparr>data = [0, 0, 0x80, 0x3F], byteCount = 4, readBytePosition = 0,
        readBitPosition = 7, writeBytePosition = 4, writeBitPosition = 7, byte = None\<rparr>)"
proof -
  have a: "\<bar>(2 ^ 53 - 1) * 2 ^ 971 :: real\<bar> = (2 ^ 53 - 1) * 2 ^ 971" by simp
  have "writeFloat lg ((2 ^ 53 - 1) * 2 ^ 971) = writeFloat_fields False 1151 (- 8388608)"
    unfolding writeFloat_def Let_def a assms by simp
  then show ?thesis
    by (simp add: new_empty writeFloat_fields_def bind_def writeByte_aligned js_defs grown_def
        writeBit_aligned writeBit_inbyte writeBits_7 return_def)
qed

subsection \<open>Counting the bits written\<close>

text \<open>
  \<open>write_cursor_ok\<close> holds for every stream that the constructor builds and is kept by every
  \<open>writeBit\<close>, which returns and advances \<open>bits()\<close> by one wherever it holds.
\<close>

lemma write_cursor_ok_new: "write_cursor_ok (new_BitStream d)"
  by (simp add: write_cursor_ok_def new_BitStream_def Let_def)

lemma writeBit_counts:
  assumes "write_cursor_ok s"
  shows "\<exists>s'. writeBit (JBoolean b) s = (Inr (), s') \<and> write_cursor_ok s' \<and> bits s' = bits s + 1"
proof (cases "writeBitPosition s = 7")
  case True
  then show ?thesis
    by (simp add: writeBit_aligned write_cursor_ok_def bits_def length_grown)
next
  case False
  with assms have "writeBitPosition s < 7" "writeBytePosition s < length (data s)"
    by (simp_all add: write_cursor_ok_def)
  then show ?thesis
    by (auto simp: writeBit_inbyte write_cursor_ok_def bits_def)
qed

lemma writeBit_seq_counts:
  assumes "write_cursor_ok s"
  shows "\<exists>s'. writeBit_seq bs s = (Inr (), s') \<and> write_cursor_ok s' \<and>
           bits s' = bits s + int (length bs)"
  using assms
proof (induction bs arbitrary: s)
  case Nil
  then show ?case by (simp add: return_def)
next
  case (Cons b bs)
  from writeBit_counts [OF Cons.prems, of b]
  obtain s1 where w: "writeBit (JBoolean b) s = (Inr (), s1)" and o: "write_cursor_ok s1"
    and c: "bits s1 = bits s + 1" by blast
  from Cons.IH [OF o]
  obtain s' where w': "writeBit_seq bs s1 = (Inr (), s')" and o': "write_cursor_ok s'"
    and c': "bits s' = bits s1 + int (length bs)" by blast
  have "writeBit_seq (b # bs) s = (Inr (), s')"
    by (simp add: bind_def w w')
  with o' c c' show ?case by simp
qed

lemma writeByte_counts:
  assumes "write_cursor_ok s"
  shows "\<exists>s'. writeByte n s = (Inr (), s') \<and> write_cursor_ok s' \<and> bits s' = bits s + 8"
  using writeBit_seq_counts [OF assms, of "map (bit n) [7, 6, 5, 4, 3, 2, 1, 0]"]
  by (simp add: writeByte_bits)

lemma write_chars_counts:
  assumes "write_cursor_ok s"
  shows "\<exists>s'. write_chars cs s = (Inr (), s') \<and> write_cursor_ok s' \<and>
           bits s' = bits s + 8 * int (length cs)"
  using assms
proof (induction cs arbitrary: s)
  case Nil
  then show ?case by (simp add: return_def)
next
  case (Cons c cs)
  from writeByte_counts [OF Cons.prems, of c]
  obtain s1 where w: "writeByte c s = (Inr (), s1)" and o: "write_cursor_ok s1"
    and c: "bits s1 = bits s + 8" by blast
  from Cons.IH [OF o]
  obtain s' where w': "write_chars cs s1 = (Inr (), s')" and o': "write_cursor_ok s'"
    and c': "bits s' = bits s1 + 8 * int (length cs)" by blast
  have "write_chars (c # cs) s = (Inr (), s')"
    by (simp add: bind_def w w')
  with o' c c' show ?case by simp
qed

subsection \<open>Two further evaluations\<close>

text \<open>
  With the write cursor inside a byte, \<open>readBit\<close> past the written region throws and leaves
  the write cursor at the read position. The compressed codec gives the value 0 back, through
  the shortest path: every flag bit 1, then the 4-bit nibble.
\<close>

lemma readBit_past_end_unaligned:
  assumes "byteCount s \<le> readBytePosition s" and "length (data s) \<le> readBytePosition s"
    and "writeBitPosition s \<noteq> 7"
  shows "readBit s = (Inl OutOfRange, s\<lparr>writeBytePosition := readBytePosition s\<rparr>)"
proof -
  have "writeByte 0 (s\<lparr>writeBytePosition := readBytePosition s\<rparr>)
          = (Inl OutOfRange, s\<lparr>writeBytePosition := readBytePosition s\<rparr>)"
    using assms by (simp add: writeByte_bits bind_def writeBit_outside)
  then show ?thesis
    using assms by (simp add: readBit_def bind_def return_def)
qed

lemma writeCompressed_zero:
  "writeCompressed 0 2 = writeBit_seq [True, True, False, False, False, False]"
  "writeCompressed 0 4 = writeBit_seq [True, True, True, True, False, False, False, False]"
  by (simp_all add: writeCompressed_def numeral_3_eq_3 compress_mask_at_def compress_mask_def
      js_defs writeBits_4)

lemma compressed_zero_roundtrip:
  "fst (bind (writeCompressed 0 2) (\<lambda>_. readCompressed 2) (new_BitStream None)) =
     Inr \<lparr>data = [0, 0], byteCount = 2, readBytePosition = 0, readBitPosition = 7,
           writeBytePosition = 2, writeBitPosition = 7, byte = None\<rparr>"
proof -
  have w: "writeCompressed 0 2 (new_BitStream None) =
     (Inr (), \<lparr>data = [0xC0], byteCount = 1, readBytePosition = 0, readBitPosition = 7,
        writeBytePosition = 0, writeBitPosition = 1, byte = None\<rparr>)"
    by (simp add: writeCompressed_zero new_empty bind_def writeBit_aligned writeBit_inbyte
        grown_def return_def)
  show ?thesis
    unfolding bind_def w
    by (simp add: readCompressed_def new_empty bind_def readBit_inside readBits_inbyte return_def
        on_other_def writeByte_aligned throw_def js_defs grown_def)
qed

text \<open>
  For every value from 1 to 15 the compressed codec of size 2 returns 240, and for size 4 a
  value with a zero top byte and a non-zero byte below it comes back shifted, because the
  reader writes its zero bytes before the literal bytes.
\<close>

lemma compressed_nibble_values:
  assumes "1 \<le> v" and "v \<le> 15"
  shows "fst (bind (writeCompressed v 2) (\<lambda>_. readCompressed 2) (new_BitStream None)) =
     Inr \<lparr>data = [0xF0, 0], byteCount = 2, readBytePosition = 0, readBitPosition = 7,
           writeBytePosition = 2, writeBitPosition = 7, byte = None\<rparr>"
proof -
  from assms have "v = 1 \<or> v = 2 \<or> v = 3 \<or> v = 4 \<or> v = 5 \<or> v = 6 \<or> v = 7 \<or> v = 8 \<or>
      v = 9 \<or> v = 10 \<or> v = 11 \<or> v = 12 \<or> v = 13 \<or> v = 14 \<or> v = 15"
    by arith
  then show ?thesis
    by (elim disjE)
       (simp_all add: new_empty writeCompressed_def bind_def writeBit_aligned writeBit_inbyte
        writeBits_4 compress_mask_at_def compress_mask_def grown_def return_def js_defs
        readCompressed_def readBit_inside readBits_inbyte on_other_def writeByte_aligned throw_def)
qed

lemma readBits_loop_numeral:
  "readBits_loop (numeral k) val =
     bind readBit (\<lambda>bit. readBits_loop (pred_numeral k) (js_or (js_shl val 1) bit))"
  by (simp add: numeral_eq_Suc)

lemma compressed_middle_byte:
  "fst (bind (writeCompressed 0x10000 4) (\<lambda>_. readCompressed 4) (new_BitStream None)) =
     Inr \<lparr>data = [0, 0, 0, 1], byteCount = 4, readBytePosition = 0, readBitPosition = 7,
           writeBytePosition = 4, writeBitPosition = 7, byte = None\<rparr>"
proof -
  have w: "writeCompressed 0x10000 4 (new_BitStream None) =
     (Inr (), \<lparr>data = [0x80, 0, 0, 0x40], byteCount = 4, readBytePosition = 0,
        readBitPosition = 7, writeBytePosition = 3, writeBitPosition = 5, byte = None\<rparr>)"
    by (simp add: new_empty writeCompressed_def numeral_3_eq_3 bind_def writeBit_aligned
        writeBit_inbyte writeByte_bits compress_mask_at_def compress_mask_def grown_def
        return_def js_defs)
  show ?thesis
    unfolding bind_def w
    by (simp add: readCompressed_def numeral_3_eq_3 new_empty bind_def readBit_inside
        readByte_def readBits_def readBits_loop_numeral get_byte_def readUInt8_def return_def
        on_other_def writeByte_aligned throw_def js_defs grown_def)
qed

subsection \<open>Reading across byte boundaries\<close>

text \<open>
  \<open>readBit\<close> returns the bit at the read position, which is 0 behind the end of the buffer,
  wherever the position is inside the buffer or the write cursor stands at a byte boundary;
  behind the end it appends zero bytes up to the byte that it reads. The same holds for any
  number of bits read in a row, for \<open>readByte\<close> at any bit position, and for the loop of
  \<open>readBytes\<close> with the read cursor inside a byte: there the byte position stays below the
  length after every \<open>readByte\<close>, so the loop runs all \<open>n\<close> times.
\<close>

lemma extended_iff:
  "extended s s' \<longleftrightarrow>
     byteCount s' = length (data s') \<and> readBitPosition s' \<le> 7 \<and>
     (\<exists>k. data s' = data s @ replicate k 0) \<and>
     writeBitPosition s' = writeBitPosition s \<and>
     writeBytePosition s' =
       (if length (data s') = length (data s) then writeBytePosition s else length (data s'))"
proof -
  have "data s' = data s @ replicate (length (data s') - length (data s)) 0
          \<longleftrightarrow> (\<exists>k. data s' = data s @ replicate k 0)"
    by (metis add_diff_cancel_left' length_append length_replicate)
  then show ?thesis by (simp add: extended_def)
qed

lemma extended_trans: "extended s s1 \<Longrightarrow> extended s1 s2 \<Longrightarrow> extended s s2"
  unfolding extended_iff
  by (auto simp: replicate_add [symmetric] simp del: replicate_add)

lemma bit_at_zeros: "bit_at (d @ replicate k 0) p = bit_at d p"
  by (auto simp: bit_at_def nth_append)

lemma extended_bit_at: "extended s s' \<Longrightarrow> bit_at (data s') = bit_at (data s)"
  by (auto simp: extended_iff bit_at_zeros)

lemma extended_length: "extended s s' \<Longrightarrow> length (data s) \<le> length (data s')"
  by (auto simp: extended_iff)

lemma position_div_mod:
  assumes "readBitPosition s \<le> 7"
  shows "read_position s div 8 = readBytePosition s"
    and "7 - read_position s mod 8 = readBitPosition s"
proof -
  define j where "j = 7 - readBitPosition s"
  have j: "j < 8" "read_position s = readBytePosition s * 8 + j" "7 - j = readBitPosition s"
    using assms by (simp_all add: j_def read_position_def)
  show "read_position s div 8 = readBytePosition s"
    unfolding j(2) using j(1) by simp
  show "7 - read_position s mod 8 = readBitPosition s"
    unfolding j(2) using j(1) j(3) by simp
qed

lemma readBit_past_end_aligned:
  assumes "byteCount s \<le> readBytePosition s" and "writeBitPosition s = 7"
  shows "readBit s =
     (Inr 0,
      s\<lparr>data := grown (data s) (readBytePosition s) @ [0],
        byteCount := readBytePosition s + 1,
        writeBytePosition := readBytePosition s + 1,
        readBitPosition := (if readBitPosition s = 0 then 7 else readBitPosition s - 1),
        readBytePosition := (if readBitPosition s = 0 then readBytePosition s + 1
                             else readBytePosition s)\<rparr>)"
proof -
  let ?r = "readBytePosition s"
  let ?s1 = "s\<lparr>writeBytePosition := ?r\<rparr>"
  let ?s2 = "?s1\<lparr>data := grown (data ?s1) (writeBytePosition ?s1) @ [word_of_int 0],
                 byteCount := writeBytePosition ?s1 + 1,
                 writeBytePosition := writeBytePosition ?s1 + 1\<rparr>"
  have w: "writeByte 0 ?s1 = (Inr (), ?s2)"
    using assms by (intro writeByte_aligned) simp
  have z: "js_shr (js_and 0 m) k = 0" for m k
    by (simp add: js_defs)
  have g: "(grown (data s) ?r @ [0]) ! ?r = 0"
    by (simp add: nth_append length_grown)
  show ?thesis
    using assms g
    by (simp add: readBit_def bind_def return_def w get_byte_def readUInt8_def length_grown
        advance_read_def z)
qed

lemma readBit_any:
  assumes "byteCount s = length (data s)" and "readBitPosition s \<le> 7"
    and "writeBitPosition s = 7 \<or> readBytePosition s < length (data s)"
  shows "\<exists>s'. readBit s = (Inr (of_bool (bit_at (data s) (read_position s))), s') \<and>
           extended s s' \<and> read_position s' = read_position s + 1 \<and>
           readBytePosition s < length (data s') \<and>
           (readBytePosition s < length (data s) \<longrightarrow> data s' = data s) \<and>
           length (data s') = max (length (data s)) (readBytePosition s + 1) \<and>
           byte s' = byte s"
proof (cases "readBytePosition s < length (data s)")
  case True
  let ?s' = "s\<lparr>readBitPosition := (if readBitPosition s = 0 then 7 else readBitPosition s - 1),
        readBytePosition := (if readBitPosition s = 0 then readBytePosition s + 1
                             else readBytePosition s)\<rparr>"
  have r: "readBit s = (Inr (of_bool (bit (data s ! readBytePosition s) (readBitPosition s))), ?s')"
    using True assms by (intro readBit_inside) simp_all
  have b: "bit_at (data s) (read_position s)
             = bit (data s ! readBytePosition s) (readBitPosition s)"
    using True assms by (simp add: bit_at_def position_div_mod)
  have e: "extended s ?s'"
    using assms by (auto simp: extended_iff intro: exI [of _ 0])
  have p: "read_position ?s' = read_position s + 1"
    using assms by (auto simp: read_position_def)
  show ?thesis
    unfolding r b using e p True by (intro exI [of _ ?s']) simp
next
  case False
  with assms have w: "writeBitPosition s = 7" and le: "byteCount s \<le> readBytePosition s"
    by simp_all
  let ?s' = "s\<lparr>data := grown (data s) (readBytePosition s) @ [0],
        byteCount := readBytePosition s + 1,
        writeBytePosition := readBytePosition s + 1,
        readBitPosition := (if readBitPosition s = 0 then 7 else readBitPosition s - 1),
        readBytePosition := (if readBitPosition s = 0 then readBytePosition s + 1
                             else readBytePosition s)\<rparr>"
  have r: "readBit s = (Inr 0, ?s')"
    using le w by (rule readBit_past_end_aligned)
  have b: "\<not> bit_at (data s) (read_position s)"
    using False assms by (simp add: bit_at_def position_div_mod)
  have g: "grown (data s) (readBytePosition s) @ [0]
             = data s @ replicate (Suc (readBytePosition s - length (data s))) 0"
    using False by (simp add: grown_def replicate_append_same)
  have e: "extended s ?s'"
    using assms w False unfolding extended_iff g
    by (auto intro: exI [of _ "Suc (readBytePosition s - length (data s))"])
  have p: "read_position ?s' = read_position s + 1"
    using assms by (auto simp: read_position_def)
  show ?thesis
    unfolding r using b e p False
    by (intro exI [of _ ?s']) (simp add: length_grown)
qed


lemma extended_refl:
  "byteCount s = length (data s) \<Longrightarrow> readBitPosition s \<le> 7 \<Longrightarrow> extended s s"
  by (auto simp: extended_iff intro: exI [of _ 0])

lemma position_in_buffer:
  assumes "readBitPosition s \<le> 7" and "read_position s < 8 * n"
  shows "readBytePosition s < n"
  using assms by (simp add: read_position_def)

lemma readBits_loop_any:
  assumes "byteCount s = length (data s)" and "readBitPosition s \<le> 7"
    and "writeBitPosition s = 7 \<or> read_position s + m \<le> 8 * length (data s)"
    and "0 \<le> v" and "v < 2 ^ (30 - m)" and "m \<le> 30"
  shows "\<exists>s'. readBits_loop m v s =
             (Inr (acc_bits v (map (bit_at (data s)) [read_position s..<read_position s + m])), s') \<and>
           extended s s' \<and> read_position s' = read_position s + m \<and>
           (0 < m \<longrightarrow> (read_position s + m - 1) div 8 < length (data s')) \<and>
           (read_position s + m \<le> 8 * length (data s) \<longrightarrow> data s' = data s) \<and>
           length (data s') = (if m = 0 then length (data s)
                               else max (length (data s)) ((read_position s + m - 1) div 8 + 1)) \<and>
           byte s' = byte s"
  using assms
proof (induction m arbitrary: s v)
  case 0
  then show ?case by (simp add: return_def extended_refl)
next
  case (Suc m)
  let ?pos = "read_position s"
  have h: "writeBitPosition s = 7 \<or> readBytePosition s < length (data s)"
    using Suc.prems(2,3) position_in_buffer [of s "length (data s)"] by auto
  from readBit_any [OF Suc.prems(1,2) h]
  obtain s1 where r: "readBit s = (Inr (of_bool (bit_at (data s) ?pos)), s1)"
    and e1: "extended s s1" and p1: "read_position s1 = ?pos + 1"
    and l1: "readBytePosition s < length (data s1)"
    and d1: "readBytePosition s < length (data s) \<longrightarrow> data s1 = data s"
    and n1: "length (data s1) = max (length (data s)) (readBytePosition s + 1)"
    and y1: "byte s1 = byte s"
    by blast
  let ?b = "of_bool (bit_at (data s) ?pos) :: int"
  have "(2::int) ^ (30 - Suc m) \<le> 2 ^ 30" by (intro power_increasing) simp_all
  with Suc.prems have vb: "v < 2 ^ 30" by linarith
  have acc: "js_or (js_shl v 1) ?b = 2 * v + ?b"
    using Suc.prems vb by (intro js_accumulate) simp_all
  have unf: "readBits_loop (Suc m) v s = readBits_loop m (2 * v + ?b) s1"
    by (simp only: readBits_loop.simps bind_def r prod.case sum.case acc)
  from Suc.prems have "(2::int) ^ (30 - m) = 2 * 2 ^ (30 - Suc m)"
    by (simp add: Suc_diff_le flip: power_Suc)
  with Suc.prems have vb': "2 * v + ?b < 2 ^ (30 - m)" "0 \<le> 2 * v + ?b"
    by (simp_all split del: split_of_bool) (cases "bit_at (data s) ?pos"; simp)+
  have c1: "byteCount s1 = length (data s1)" "readBitPosition s1 \<le> 7"
    using e1 by (simp_all add: extended_iff)
  have w1: "writeBitPosition s1 = 7 \<or> read_position s1 + m \<le> 8 * length (data s1)"
  proof (cases "writeBitPosition s = 7")
    case True
    with e1 show ?thesis by (simp add: extended_iff)
  next
    case False
    with Suc.prems(3) have le: "?pos + Suc m \<le> 8 * length (data s)" by simp
    then have "readBytePosition s < length (data s)"
      using Suc.prems(2) position_in_buffer [of s "length (data s)"] by simp
    with d1 have "data s1 = data s" by simp
    with le p1 show ?thesis by simp
  qed
  from Suc.IH [OF c1 w1 vb'(2) vb'(1)] Suc.prems
  obtain s' where r': "readBits_loop m (2 * v + ?b) s1 =
             (Inr (acc_bits (2 * v + ?b)
                     (map (bit_at (data s1)) [read_position s1..<read_position s1 + m])), s')"
    and e': "extended s1 s'" and p': "read_position s' = read_position s1 + m"
    and l': "0 < m \<longrightarrow> (read_position s1 + m - 1) div 8 < length (data s')"
    and d': "read_position s1 + m \<le> 8 * length (data s1) \<longrightarrow> data s' = data s1"
    and n': "length (data s') = (if m = 0 then length (data s1)
                               else max (length (data s1)) ((read_position s1 + m - 1) div 8 + 1))"
    and y': "byte s' = byte s1"
    by auto
  have u: "[?pos..<?pos + Suc m] = ?pos # [?pos + 1..<?pos + 1 + m]"
    by (simp add: upt_conv_Cons del: upt_Suc)
  have v: "acc_bits (2 * v + ?b) (map (bit_at (data s1)) [read_position s1..<read_position s1 + m])
         = acc_bits v (map (bit_at (data s)) [?pos..<?pos + Suc m])"
    unfolding u p1 extended_bit_at [OF e1] by simp
  have 1: "readBits_loop (Suc m) v s =
             (Inr (acc_bits v (map (bit_at (data s)) [?pos..<?pos + Suc m])), s')"
    unfolding unf r' v ..
  have 2: "extended s s'" using e1 e' by (rule extended_trans)
  have 3: "read_position s' = ?pos + Suc m" using p' p1 by simp
  have 4: "(?pos + Suc m - 1) div 8 < length (data s')"
  proof (cases "m = 0")
    case True
    have "?pos div 8 < length (data s1)"
      using l1 Suc.prems(2) by (simp add: position_div_mod)
    also have "\<dots> \<le> length (data s')" using e' by (rule extended_length)
    finally show ?thesis using True by simp
  next
    case False
    with l' p1 show ?thesis by simp
  qed
  have 5: "?pos + Suc m \<le> 8 * length (data s) \<longrightarrow> data s' = data s"
  proof
    assume le: "?pos + Suc m \<le> 8 * length (data s)"
    then have "readBytePosition s < length (data s)"
      using Suc.prems(2) position_in_buffer [of s "length (data s)"] by simp
    with d1 have "data s1 = data s" by simp
    with le p1 d' show "data s' = data s" by simp
  qed
  have "?pos div 8 \<le> (?pos + m) div 8" by (intro div_le_mono) simp
  then have 6: "length (data s') = max (length (data s)) ((?pos + Suc m - 1) div 8 + 1)"
    using n' n1 p1 position_div_mod(1) [OF Suc.prems(2)] by (simp add: max_def)
  from 1 2 3 4 5 6 y' y1 show ?case by simp
qed


lemma readByte_any:
  assumes "byteCount s = length (data s)" and "readBitPosition s \<le> 7"
    and "writeBitPosition s = 7 \<or> read_position s + 8 \<le> 8 * length (data s)"
  shows "\<exists>v s'. readByte s = (Inr v, s') \<and> word_of_int v = byte_from (data s) (read_position s) \<and>
           extended s s' \<and> read_position s' = read_position s + 8 \<and>
           length (data s') = max (length (data s)) ((read_position s + 7) div 8 + 1) \<and>
           byte s' = (if readBytePosition s < length (data s)
                      then Some (uint (data s ! readBytePosition s)) else byte s)"
proof -
  define s0 where "s0 = (if readBytePosition s < byteCount s
                          then s\<lparr>byte := Some (uint (data s ! readBytePosition s))\<rparr> else s)"
  have s0: "data s0 = data s" "byteCount s0 = byteCount s" "readBitPosition s0 = readBitPosition s"
    "writeBitPosition s0 = writeBitPosition s" "read_position s0 = read_position s"
    "writeBytePosition s0 = writeBytePosition s"
    by (simp_all add: s0_def read_position_def)
  have y0: "byte s0 = (if readBytePosition s < length (data s)
                       then Some (uint (data s ! readBytePosition s)) else byte s)"
    using assms(1) by (simp add: s0_def)
  have unf: "readByte s = readBits_loop 8 0 s0"
    using assms(1)
    by (simp add: readByte_def readBits_def bind_def get_byte_def readUInt8_def return_def s0_def)
  have e0: "extended s s0"
    using assms by (auto simp: extended_iff s0 intro: exI [of _ 0])
  from readBits_loop_any [of s0 8 0] assms s0
  obtain s' where r: "readBits_loop 8 0 s0 =
       (Inr (acc_bits 0 (map (bit_at (data s)) [read_position s..<read_position s + 8])), s')"
    and e: "extended s0 s'" and p: "read_position s' = read_position s + 8"
    and n: "length (data s') = max (length (data s)) ((read_position s + 7) div 8 + 1)"
    and y: "byte s' = byte s0"
    by auto
  from e0 e have "extended s s'" by (rule extended_trans)
  with r p n y y0 show ?thesis
    unfolding unf byte_from_def by simp
qed

lemma byte_from_zeros: "byte_from (d @ replicate k 0) = byte_from d"
  by (rule ext) (simp add: byte_from_def bit_at_zeros [abs_def])

lemma extended_byte_from: "extended s s' \<Longrightarrow> byte_from (data s') = byte_from (data s)"
  by (auto simp: extended_iff byte_from_zeros)

lemma position_next_byte:
  assumes "readBitPosition s < 7"
  shows "(read_position s + 7) div 8 = readBytePosition s + 1"
proof -
  define j where "j = 6 - readBitPosition s"
  have "j < 7" and "read_position s + 7 = (readBytePosition s + 1) * 8 + j"
    using assms by (simp_all add: j_def read_position_def)
  then show ?thesis by simp
qed

lemma readBytes_loop_any:
  assumes "byteCount s = length (data s)" and "readBitPosition s < 7"
    and "readBytePosition s < length (data s)"
    and "writeBitPosition s = 7 \<or> readBytePosition s + n < length (data s)"
    and "writeBitPosition val = 7" and "writeBytePosition val = length (data val)"
    and "byteCount val = length (data val)"
  shows "\<exists>s'. readBytes_loop n val s =
           (Inr (val\<lparr>data := data val @
                          map (\<lambda>i. byte_from (data s) (read_position s + 8 * i)) [0..<n],
                      byteCount := length (data val) + n,
                      writeBytePosition := length (data val) + n\<rparr>), s') \<and>
           extended s s' \<and> read_position s' = read_position s + 8 * n \<and>
           length (data s') = (if n = 0 then length (data s)
                               else max (length (data s)) (readBytePosition s + n + 1)) \<and>
           byte s' = (if n = 0 then byte s
                      else Some (uint (data s' ! (readBytePosition s + n - 1))))"
  using assms
proof (induction n arbitrary: s val)
  case 0
  then show ?case by (simp add: return_def extended_refl)
next
  case (Suc n)
  let ?pos = "read_position s"
  have r7: "readBitPosition s \<le> 7" using Suc.prems(2) by simp
  have h: "writeBitPosition s = 7 \<or> ?pos + 8 \<le> 8 * length (data s)"
    using Suc.prems(2,4) by (auto simp: read_position_def)
  from readByte_any [OF Suc.prems(1) r7 h]
  obtain v s1 where r: "readByte s = (Inr v, s1)"
    and v: "word_of_int v = byte_from (data s) ?pos"
    and e1: "extended s s1" and p1: "read_position s1 = ?pos + 8"
    and n1: "length (data s1) = max (length (data s)) ((?pos + 7) div 8 + 1)"
    and y1: "byte s1 = Some (uint (data s ! readBytePosition s))"
    using Suc.prems(3) by auto
  have c1: "byteCount s1 = length (data s1)" "readBitPosition s1 \<le> 7"
    using e1 by (simp_all add: extended_iff)
  have "readBitPosition s1 = 7 - read_position s1 mod 8"
    using position_div_mod(2) [OF c1(2)] by simp
  also have "\<dots> = 7 - ?pos mod 8" by (simp add: p1)
  also have "\<dots> = readBitPosition s" by (rule position_div_mod(2) [OF r7])
  finally have b1: "readBitPosition s1 = readBitPosition s" .
  have "readBytePosition s1 = read_position s1 div 8"
    using position_div_mod(1) [OF c1(2)] by simp
  also have "\<dots> = ?pos div 8 + 1" by (simp add: p1)
  also have "\<dots> = readBytePosition s + 1" by (simp add: position_div_mod(1) [OF r7])
  finally have B1: "readBytePosition s1 = readBytePosition s + 1" .
  have n1': "length (data s1) = max (length (data s)) (readBytePosition s + 2)"
    using n1 position_next_byte [OF Suc.prems(2)] by simp
  have w1: "writeBitPosition s1 = 7 \<or> readBytePosition s1 + n < length (data s1)"
    using Suc.prems(4) e1 n1' B1 by (auto simp: extended_iff)
  let ?v1 = "val\<lparr>data := data val @ [byte_from (data s) ?pos],
                  byteCount := length (data val) + 1,
                  writeBytePosition := length (data val) + 1\<rparr>"
  have wv: "writeByte v val = (Inr (), ?v1)"
    using Suc.prems(5,6) by (simp add: writeByte_aligned grown_self v)
  have unf: "readBytes_loop (Suc n) val s = readBytes_loop n ?v1 s1"
    using Suc.prems(1,3)
    by (simp add: length_BitStream_def bind_def r on_other_def wv return_def)
  have "\<exists>s'. readBytes_loop n ?v1 s1 =
           (Inr (?v1\<lparr>data := data ?v1 @
                          map (\<lambda>i. byte_from (data s1) (read_position s1 + 8 * i)) [0..<n],
                      byteCount := length (data ?v1) + n,
                      writeBytePosition := length (data ?v1) + n\<rparr>), s') \<and>
           extended s1 s' \<and> read_position s' = read_position s1 + 8 * n \<and>
           length (data s') = (if n = 0 then length (data s1)
                               else max (length (data s1)) (readBytePosition s1 + n + 1)) \<and>
           byte s' = (if n = 0 then byte s1
                      else Some (uint (data s' ! (readBytePosition s1 + n - 1))))"
    using c1(1) b1 Suc.prems(2,5) n1' B1 w1
    by (intro Suc.IH) simp_all
  then obtain s' where r': "readBytes_loop n ?v1 s1 =
           (Inr (?v1\<lparr>data := data ?v1 @
                          map (\<lambda>i. byte_from (data s1) (read_position s1 + 8 * i)) [0..<n],
                      byteCount := length (data ?v1) + n,
                      writeBytePosition := length (data ?v1) + n\<rparr>), s')"
    and e': "extended s1 s'" and p': "read_position s' = read_position s1 + 8 * n"
    and n': "length (data s') = (if n = 0 then length (data s1)
                               else max (length (data s1)) (readBytePosition s1 + n + 1))"
    and y': "byte s' = (if n = 0 then byte s1
                        else Some (uint (data s' ! (readBytePosition s1 + n - 1))))"
    by blast
  have m: "map (\<lambda>i. byte_from (data s) (?pos + 8 * i)) [0..<Suc n]
         = byte_from (data s) ?pos # map (\<lambda>i. byte_from (data s1) (read_position s1 + 8 * i)) [0..<n]"
    unfolding map_upt_Suc extended_byte_from [OF e1] p1 by (simp add: add.assoc)
  have 1: "readBytes_loop (Suc n) val s =
           (Inr (val\<lparr>data := data val @
                          map (\<lambda>i. byte_from (data s) (?pos + 8 * i)) [0..<Suc n],
                      byteCount := length (data val) + Suc n,
                      writeBytePosition := length (data val) + Suc n\<rparr>), s')"
    unfolding unf r' m by simp
  have 2: "extended s s'" using e1 e' by (rule extended_trans)
  have 3: "read_position s' = ?pos + 8 * Suc n" using p' p1 by simp
  have 4: "length (data s') = max (length (data s)) (readBytePosition s + Suc n + 1)"
    using n' n1' B1 by (simp add: max_def)
  have "data s' ! readBytePosition s = data s ! readBytePosition s"
    using 2 Suc.prems(3) by (auto simp: extended_iff nth_append)
  with y' y1 B1
  have 5: "byte s' = Some (uint (data s' ! (readBytePosition s + Suc n - 1)))"
    by simp
  from 1 2 3 4 5 show ?case by simp
qed


lemma acc_bits_snoc: "acc_bits v (bs @ [b]) = 2 * acc_bits v bs + of_bool b"
  by (induction bs arbitrary: v) simp_all

lemma bit_acc_bits:
  "bit (acc_bits 0 bs) j \<longleftrightarrow> j < length bs \<and> bs ! (length bs - 1 - j)"
proof (induction bs arbitrary: j rule: rev_induct)
  case Nil
  then show ?case by simp
next
  case (snoc b bs)
  show ?case
  proof (cases j)
    case 0
    then show ?thesis by (simp add: acc_bits_snoc bit_0)
  next
    case (Suc i)
    have "(2 * acc_bits 0 bs + of_bool b) div 2 = acc_bits 0 bs" by simp
    then show ?thesis
      using Suc snoc [of i]
      by (auto simp add: acc_bits_snoc bit_Suc nth_append Suc_diff_Suc simp del: of_bool_eq_iff)
  qed
qed

lemma bit_byte_from:
  "bit (byte_from d pos) j \<longleftrightarrow> j < 8 \<and> bit_at d (pos + (7 - j))"
  by (auto simp add: byte_from_def bit_word_of_int_iff bit_acc_bits)

lemma byte_from_aligned:
  assumes "k < length d"
  shows "byte_from d (8 * k) = d ! k"
proof (rule bit_eqI)
  fix j
  have "7 - j < (8::nat)" by simp
  then have "(8 * k + (7 - j)) div 8 = k" "(8 * k + (7 - j)) mod 8 = 7 - j"
    by simp_all
  moreover have "bit (d ! k) j \<Longrightarrow> j < 8"
    by (auto dest: bit_imp_le_length)
  moreover have "j < 8 \<Longrightarrow> 7 - (7 - j) = j" by simp
  ultimately show "bit (byte_from d (8 * k)) j \<longleftrightarrow> bit (d ! k) j"
    using assms by (auto simp: bit_byte_from bit_at_def)
qed

lemma byte_from_example:
  "byte_from [0xAB, 0xCD] 4 = 0xBC" "byte_from [0xAB, 0xCD] 12 = 0xD0"
  "byte_from [0xAB, 0xCD] 20 = 0"
  by (simp_all add: byte_from_def bit_at_def upt_conv_Cons)

subsection \<open>The bits of a string\<close>

lemma write_chars_bits: "write_chars cs = writeBit_seq (concat (map char_bits cs))"
proof (induction cs)
  case Nil
  show ?case by simp
next
  case (Cons c cs)
  have "write_chars (c # cs) = bind (writeBit_seq (char_bits c)) (\<lambda>_. write_chars cs)"
    by (simp only: write_chars.simps writeByte_bits char_bits_def)
  also have "\<dots> = writeBit_seq (char_bits c @ concat (map char_bits cs))"
    by (simp only: Cons.IH writeBit_seq_append)
  finally show ?case by simp
qed

lemma length_char_bits: "length (concat (map char_bits cs)) = 8 * length cs"
  by (induction cs) (simp_all add: char_bits_def)

section \<open>The claims\<close>

text \<open>
  Claim C1 (compressed integer round trip). The claim says that \<open>writeCompressed\<close> followed by
  \<open>readCompressed\<close> with the same size gives the value back. The code does not: for the value
  5 and size 2 the writer emits the flag bits 1, 1 and the nibble 0101, and the reader, whose
  nibble case computes \<open>this.readBits(4) << 4 && 0xF0\<close>, returns the bytes \<open>[0xF0, 0x00]\<close>,
  that is 240.
\<close>

theorem C1_compressed_roundtrip_fails:
  "bind (writeCompressed 5 2) (\<lambda>_. readCompressed 2) (new_BitStream None) =
     (Inr \<lparr>data = [0xF0, 0], byteCount = 2, readBytePosition = 0, readBitPosition = 7,
            writeBytePosition = 2, writeBitPosition = 7, byte = None\<rparr>,
      \<lparr>data = [0xD4], byteCount = 1, readBytePosition = 0, readBitPosition = 1,
        writeBytePosition = 0, writeBitPosition = 1, byte = Some 0xD4\<rparr>)"
proof -
  have w: "writeCompressed 5 2 (new_BitStream None) =
     (Inr (), \<lparr>data = [0xD4], byteCount = 1, readBytePosition = 0, readBitPosition = 7,
        writeBytePosition = 0, writeBitPosition = 1, byte = None\<rparr>)"
    by (simp add: new_empty writeCompressed_def bind_def writeBit_aligned writeBit_inbyte
        writeBits_4 compress_mask_at_def compress_mask_def grown_def return_def js_defs)
  show ?thesis
    unfolding bind_def w
    by (simp add: readCompressed_def new_empty bind_def readBit_inside readBits_inbyte return_def
        on_other_def writeByte_aligned throw_def js_defs grown_def)
qed

text \<open>
  Claim C2 (round trip of the bit primitives). For every finite sequence of booleans, writing
  them in order with \<open>writeBit\<close> onto a freshly constructed empty stream and then calling
  \<open>readBit\<close> as many times on the same stream returns without error, and the bits read are
  the bits written, 1 for \<open>true\<close> and 0 for \<open>false\<close>, in the same order.
\<close>

theorem C2_bit_roundtrip:
  "fst (bind (writeBit_seq bs) (\<lambda>_. readBit_seq (length bs)) (new_BitStream None))
     = Inr (map Number_of_bool bs)"
proof -
  from writeBit_seq_keeps_written [OF bits_written_new, of bs]
  obtain s' q' j' where w: "writeBit_seq bs (new_BitStream None) = (Inr (), s')"
    and b: "bits_written s' bs q' j'"
    and r: "readBytePosition s' = 0" "readBitPosition s' = 7"
    by (auto simp: new_empty)
  from readBit_seq_written [OF b, of 0 0 "length bs"] r
  obtain s'' where "readBit_seq (length bs) s' = (Inr (map Number_of_bool bs), s'')"
    by auto
  then show ?thesis
    by (simp add: bind_def w)
qed

text \<open>
  Claim C3 (\<open>readBit\<close> past the written region). As stated, the claim says that the write
  cursor after the call is the one before it. The code sets
  \<open>writeBytePosition = readBytePosition\<close>, calls \<open>writeByte(0)\<close> and never restores the
  write cursor: on a fresh empty stream \<open>readBit\<close> returns 0 and extends the buffer by one zero
  byte, and the write cursor has moved from byte 0 to byte 1.
\<close>

theorem C3_readBit_moves_write_cursor:
  "byteCount (new_BitStream None) \<le> readBytePosition (new_BitStream None) \<and>
   readBit (new_BitStream None) =
     (Inr 0, \<lparr>data = [0], byteCount = 1, readBytePosition = 0, readBitPosition = 6,
        writeBytePosition = 1, writeBitPosition = 7, byte = None\<rparr>) \<and>
   writeBytePosition (snd (readBit (new_BitStream None)))
     \<noteq> writeBytePosition (new_BitStream None)"
proof -
  have r: "readBit (new_BitStream None) =
     (Inr 0, \<lparr>data = [0], byteCount = 1, readBytePosition = 0, readBitPosition = 6,
        writeBytePosition = 1, writeBitPosition = 7, byte = None\<rparr>)"
    by (simp add: new_empty readBit_def bind_def return_def writeByte_aligned grown_def
        get_byte_def readUInt8_def advance_read_def mask_at_def mask_table_def js_defs)
  show ?thesis
    unfolding r by (simp add: new_empty)
qed

text \<open>
  Claim C3, amended. For every stream whose read cursor is past the written region
  (\<open>readBytePosition \<ge> byteCount\<close>) and whose write cursor stands at a byte boundary
  (\<open>writeBitPosition = 7\<close>), \<open>readBit\<close> does not fail and returns 0; the buffer afterwards
  is the old bytes below \<open>readBytePosition\<close> (zero-filled up to there) followed by one zero
  byte, the read cursor has advanced by one bit, and the write cursor is left at the byte after
  the read position: it is not restored.
\<close>

theorem C3_readBit_past_end:
  assumes "byteCount s \<le> readBytePosition s" and "writeBitPosition s = 7"
  shows "readBit s =
     (Inr 0,
      s\<lparr>data := take (readBytePosition s) (data s)
                  @ replicate (readBytePosition s - length (data s)) 0 @ [0],
        byteCount := readBytePosition s + 1,
        writeBytePosition := readBytePosition s + 1,
        readBitPosition := (if readBitPosition s = 0 then 7 else readBitPosition s - 1),
        readBytePosition := (if readBitPosition s = 0 then readBytePosition s + 1
                             else readBytePosition s)\<rparr>)"
proof -
  let ?r = "readBytePosition s"
  let ?s1 = "s\<lparr>writeBytePosition := ?r\<rparr>"
  let ?s2 = "?s1\<lparr>data := grown (data ?s1) (writeBytePosition ?s1) @ [word_of_int 0],
                 byteCount := writeBytePosition ?s1 + 1,
                 writeBytePosition := writeBytePosition ?s1 + 1\<rparr>"
  have w: "writeByte 0 ?s1 = (Inr (), ?s2)"
    using assms by (intro writeByte_aligned) simp
  have z: "js_shr (js_and 0 m) k = 0" for m k
    by (simp add: js_defs)
  have g: "(grown (data s) ?r @ [0]) ! ?r = 0"
    by (simp add: nth_append length_grown)
  show ?thesis
    using assms g
    by (simp add: readBit_def bind_def return_def w get_byte_def readUInt8_def length_grown
        advance_read_def z) (simp add: grown_def)
qed

theorem C3_readBit_past_end_witness:
  "byteCount (new_BitStream None) \<le> readBytePosition (new_BitStream None) \<and>
   writeBitPosition (new_BitStream None) = 7 \<and>
   readBit (new_BitStream None) =
     (Inr 0, \<lparr>data = [0], byteCount = 1, readBytePosition = 0, readBitPosition = 6,
        writeBytePosition = 1, writeBitPosition = 7, byte = None\<rparr>)"
  using C3_readBit_past_end [of "new_BitStream None"] by (simp add: new_empty)

text \<open>
  Claim C4 (the buffer never shrinks). The claim says that no operation shrinks the buffer or
  discards pre-loaded bytes. \<open>writeBit\<close> at a byte boundary allocates a buffer of
  \<open>writeBytePosition + 1\<close> bytes without looking at the current length: on a stream
  pre-loaded with three bytes the first \<open>writeBit\<close> leaves a single byte, and \<open>length()\<close>
  drops from 3 to 1.
\<close>

theorem C4_write_truncates_preloaded_buffer:
  "length_BitStream (new_BitStream (Some [1, 2, 3])) = 3 \<and>
   writeBit (JBoolean True) (new_BitStream (Some [1, 2, 3])) =
     (Inr (), \<lparr>data = [0x80], byteCount = 1, readBytePosition = 0, readBitPosition = 7,
        writeBytePosition = 0, writeBitPosition = 6, byte = Some 1\<rparr>) \<and>
   length_BitStream (snd (writeBit (JBoolean True) (new_BitStream (Some [1, 2, 3])))) = 1"
  by (simp add: new_BitStream_def length_BitStream_def writeBit_aligned grown_def)

text \<open>
  Claim C5 (argument check of \<open>writeBit\<close>). For every input that is not a boolean,
  \<open>writeBit\<close> fails with the invalid-argument error and the stream after the call is the
  stream before it. For a boolean input the call never fails with that error, and it does not
  fail at all on a stream whose write cursor is at a byte boundary or inside the buffer, which
  is the case for every stream built by the constructor and by calls that returned.
\<close>

theorem C5_writeBit_validates_argument:
  "((\<forall>v. b \<noteq> JBoolean v) \<longrightarrow> writeBit b s = (Inl InvalidArgument, s)) \<and>
   fst (writeBit (JBoolean v) s) \<noteq> Inl InvalidArgument \<and>
   (writeBitPosition s = 7 \<or> (writeBitPosition s < 7 \<and> writeBytePosition s < length (data s))
      \<longrightarrow> (\<exists>s'. writeBit (JBoolean v) s = (Inr (), s')))"
proof (intro conjI impI)
  assume "\<forall>v. b \<noteq> JBoolean v"
  then show "writeBit b s = (Inl InvalidArgument, s)" by (rule writeBit_nonboolean)
next
  show "fst (writeBit (JBoolean v) s) \<noteq> Inl InvalidArgument"
  proof (cases "writeBitPosition s = 7")
    case True
    then show ?thesis by (simp add: writeBit_aligned)
  next
    case False
    show ?thesis
    proof (cases "writeBytePosition s < length (data s)")
      case True
      show ?thesis
      proof (cases "writeBitPosition s < 7")
        case True
        with \<open>writeBytePosition s < length (data s)\<close> show ?thesis
          by (simp add: writeBit_inbyte)
      next
        case False
        then show ?thesis
          using \<open>writeBitPosition s \<noteq> 7\<close>
          by (auto simp: writeBit_def bind_def return_def get_byte_def put_byte_def
              readUInt8_def writeUInt8_def advance_write_def split: if_splits)
      qed
    next
      case False
      with \<open>writeBitPosition s \<noteq> 7\<close> show ?thesis by (simp add: writeBit_outside)
    qed
  qed
next
  assume "writeBitPosition s = 7 \<or> (writeBitPosition s < 7 \<and> writeBytePosition s < length (data s))"
  then show "\<exists>s'. writeBit (JBoolean v) s = (Inr (), s')"
    by (auto simp: writeBit_aligned writeBit_inbyte)
qed

theorem C5_writeBit_validates_argument_witness:
  "(\<forall>v. JNumber 1 \<noteq> JBoolean v) \<and>
   writeBit (JNumber 1) (new_BitStream None) = (Inl InvalidArgument, new_BitStream None) \<and>
   writeBitPosition (new_BitStream None) = 7 \<and>
   (\<exists>s'. writeBit (JBoolean True) (new_BitStream None) = (Inr (), s'))"
  using C5_writeBit_validates_argument [of "JNumber 1" "new_BitStream None" True]
  by (simp add: new_empty)

text \<open>
  Claim C6 (signed byte). The claim says that \<open>writeSignedByte n\<close> emits the sign bit and the
  7-bit magnitude of \<open>n\<close>, so that \<open>readSignedChar\<close> returns \<open>n\<close>. The loop of
  \<open>writeSignedByte\<close> tests the mask \<open>0x80\<close> seven times, so it emits bits 7 to 1 of the
  magnitude and drops bit 0: after \<open>writeSignedByte 1\<close> the byte is 0 and \<open>readSignedChar\<close>
  returns 0.
\<close>

theorem C6_signed_byte_drops_low_bit:
  "bind (writeSignedByte 1) (\<lambda>_. readSignedChar) (new_BitStream None) =
     (Inr 0, \<lparr>data = [0], byteCount = 1, readBytePosition = 1, readBitPosition = 7,
        writeBytePosition = 1, writeBitPosition = 7, byte = Some 0\<rparr>)"
proof -
  have w: "writeSignedByte 1 (new_BitStream None) =
     (Inr (), \<lparr>data = [0], byteCount = 1, readBytePosition = 0, readBitPosition = 7,
        writeBytePosition = 1, writeBitPosition = 7, byte = None\<rparr>)"
    by (simp add: new_empty writeSignedByte_def bind_def writeBit_aligned writeBit_inbyte
        byte_loop_7 grown_def return_def)
  show ?thesis
    unfolding bind_def w
    by (simp add: readSignedChar_def bind_def readBit_inside readBits_inbyte return_def)
qed

text \<open>
  Claim C7 (\<open>allRead\<close>). The claim says that \<open>allRead()\<close> is true exactly when the read
  cursor has consumed every bit that \<open>bits()\<close> reports. \<open>allRead\<close> compares
  \<open>readBytePosition * 8 + readBitPosition\<close>, where the bit position counts down from 7, with
  \<open>byteCount * 8 - 1\<close>. After one byte is written and nothing is read it is true although
  8 bits are unread; after 4 bits are written and the same 4 bits are read back it is false.
\<close>

theorem C7_allRead_ignores_unread_bits:
  "writeByte 0xAA (new_BitStream None) =
     (Inr (), \<lparr>data = [0xAA], byteCount = 1, readBytePosition = 0, readBitPosition = 7,
        writeBytePosition = 1, writeBitPosition = 7, byte = None\<rparr>) \<and>
   bits (snd (writeByte 0xAA (new_BitStream None))) = 8 \<and>
   allRead (snd (writeByte 0xAA (new_BitStream None))) \<and>
   bind (writeBits 0xF 4) (\<lambda>_. readBits 4) (new_BitStream None) =
     (Inr 0xF, \<lparr>data = [0xF0], byteCount = 1, readBytePosition = 0, readBitPosition = 3,
        writeBytePosition = 0, writeBitPosition = 3, byte = Some 0xF0\<rparr>) \<and>
   bits (snd (bind (writeBits 0xF 4) (\<lambda>_. readBits 4) (new_BitStream None))) = 4 \<and>
   \<not> allRead (snd (bind (writeBits 0xF 4) (\<lambda>_. readBits 4) (new_BitStream None)))"
proof -
  have a: "writeByte 0xAA (new_BitStream None) =
     (Inr (), \<lparr>data = [0xAA], byteCount = 1, readBytePosition = 0, readBitPosition = 7,
        writeBytePosition = 1, writeBitPosition = 7, byte = None\<rparr>)"
    by (simp add: new_empty writeByte_aligned grown_def)
  have w: "writeBits 0xF 4 (new_BitStream None) =
     (Inr (), \<lparr>data = [0xF0], byteCount = 1, readBytePosition = 0, readBitPosition = 7,
        writeBytePosition = 0, writeBitPosition = 3, byte = None\<rparr>)"
    by (simp add: new_empty writeBits_4 bind_def writeBit_aligned writeBit_inbyte grown_def
        return_def)
  have b: "bind (writeBits 0xF 4) (\<lambda>_. readBits 4) (new_BitStream None) =
     (Inr 0xF, \<lparr>data = [0xF0], byteCount = 1, readBytePosition = 0, readBitPosition = 3,
        writeBytePosition = 0, writeBitPosition = 3, byte = Some 0xF0\<rparr>)"
    unfolding bind_def w by (simp add: readBits_inbyte)
  show ?thesis
    unfolding a b by (simp add: bits_def allRead_def)
qed

text \<open>
  Claim C8 (\<open>readBytes\<close>). As stated, the claim says that the returned stream always holds
  \<open>n\<close> bytes, the source being zero-extended when fewer remain. The loop of \<open>readBytes\<close>
  stops as soon as \<open>readBytePosition\<close> reaches \<open>length()\<close>: with one byte in the source,
  \<open>readBytes(3)\<close> returns a stream of one byte and the source is not extended.
\<close>

theorem C8_readBytes_stops_at_end:
  "readBytes 3 (new_BitStream (Some [0xAA])) =
     (Inr \<lparr>data = [0xAA], byteCount = 1, readBytePosition = 0, readBitPosition = 7,
            writeBytePosition = 1, writeBitPosition = 7, byte = None\<rparr>,
      \<lparr>data = [0xAA], byteCount = 1, readBytePosition = 1, readBitPosition = 7,
        writeBytePosition = 0, writeBitPosition = 7, byte = Some 0xAA\<rparr>)"
proof -
  have n: "new_BitStream (Some [0xAA]) =
      \<lparr>data = [0xAA], byteCount = 1, readBytePosition = 0, readBitPosition = 7,
        writeBytePosition = 0, writeBitPosition = 7, byte = Some 0xAA\<rparr>"
    by (simp add: new_BitStream_def)
  show ?thesis
    unfolding readBytes_def n
    by (subst readBytes_loop_aligned) (simp_all add: new_empty)
qed

text \<open>
  Claim C8, amended. For every \<open>n \<ge> 0\<close> and every stream whose byte count is the length
  of its buffer, in each of the following three cases \<open>readBytes(n)\<close> does not fail and
  returns a new stream containing the next bytes read from the source. With the read cursor
  at a byte boundary, the returned stream holds the next \<open>min n r\<close> bytes, where \<open>r\<close> is
  the number of bytes that remain: all \<open>n\<close> bytes when they are there, only the remaining
  ones when fewer remain, and the source is not extended. With the read cursor inside a byte
  of the buffer, and the write cursor at a byte boundary or all \<open>8 * n\<close> bits remaining, the
  returned stream holds exactly \<open>n\<close> bytes, the next \<open>8 * n\<close> bits of the source: when fewer
  remain, the source is zero-extended, up to the last byte that is read, so the returned
  stream still holds \<open>n\<close> bytes (and the write cursor of the source then stands behind that
  byte). With the read cursor inside a byte behind the end of the buffer, the returned
  stream is empty and the source unchanged.
\<close>

theorem C8_readBytes_next_bytes:
  assumes "byteCount s = length (data s)"
  shows "(readBitPosition s = 7 \<longrightarrow>
           readBytes n s =
             (Inr \<lparr>data = take n (drop (readBytePosition s) (data s)),
                    byteCount = min n (length (data s) - readBytePosition s),
                    readBytePosition = 0, readBitPosition = 7,
                    writeBytePosition = min n (length (data s) - readBytePosition s),
                    writeBitPosition = 7, byte = None\<rparr>,
              s\<lparr>byte := (if min n (length (data s) - readBytePosition s) = 0 then byte s
                          else Some (uint (data s ! (readBytePosition s
                                 + min n (length (data s) - readBytePosition s) - 1)))),
                readBytePosition :=
                  readBytePosition s + min n (length (data s) - readBytePosition s)\<rparr>)) \<and>
         (readBitPosition s < 7 \<and> readBytePosition s < length (data s) \<and>
          (writeBitPosition s = 7 \<or> readBytePosition s + n < length (data s)) \<longrightarrow>
           readBytes n s =
             (Inr \<lparr>data = map (\<lambda>i. byte_from (data s) (read_position s + 8 * i)) [0..<n],
                    byteCount = n, readBytePosition = 0, readBitPosition = 7,
                    writeBytePosition = n, writeBitPosition = 7, byte = None\<rparr>,
              s\<lparr>data := data s @ replicate (readBytePosition s + n + 1 - length (data s)) 0,
                byteCount := max (length (data s)) (readBytePosition s + n + 1),
                writeBytePosition :=
                  (if length (data s) \<le> readBytePosition s + n then readBytePosition s + n + 1
                   else writeBytePosition s),
                byte := (if n = 0 then byte s
                         else if readBytePosition s + n \<le> length (data s)
                         then Some (uint (data s ! (readBytePosition s + n - 1)))
                         else Some 0),
                readBytePosition := readBytePosition s + n\<rparr>)) \<and>
         (readBitPosition s < 7 \<and> length (data s) \<le> readBytePosition s \<longrightarrow>
           readBytes n s = (Inr (new_BitStream None), s))"
proof (intro conjI impI)
  assume "readBitPosition s = 7"
  with assms show "readBytes n s =
             (Inr \<lparr>data = take n (drop (readBytePosition s) (data s)),
                    byteCount = min n (length (data s) - readBytePosition s),
                    readBytePosition = 0, readBitPosition = 7,
                    writeBytePosition = min n (length (data s) - readBytePosition s),
                    writeBitPosition = 7, byte = None\<rparr>,
              s\<lparr>byte := (if min n (length (data s) - readBytePosition s) = 0 then byte s
                          else Some (uint (data s ! (readBytePosition s
                                 + min n (length (data s) - readBytePosition s) - 1)))),
                readBytePosition :=
                  readBytePosition s + min n (length (data s) - readBytePosition s)\<rparr>)"
    unfolding readBytes_def
    by (subst readBytes_loop_aligned) (simp_all add: new_empty)
next
  assume a: "readBitPosition s < 7 \<and> readBytePosition s < length (data s) \<and>
          (writeBitPosition s = 7 \<or> readBytePosition s + n < length (data s))"
  let ?val = "\<lparr>data = map (\<lambda>i. byte_from (data s) (read_position s + 8 * i)) [0..<n],
                          byteCount = n, readBytePosition = 0, readBitPosition = 7,
                          writeBytePosition = n, writeBitPosition = 7, byte = None\<rparr>"
  from a have r7: "readBitPosition s \<le> 7" by simp
  from readBytes_loop_any [of s n "new_BitStream None"] assms a
  obtain s' where r: "readBytes n s = (Inr ?val, s')"
    and e: "extended s s'" and p: "read_position s' = read_position s + 8 * n"
    and l: "length (data s') = (if n = 0 then length (data s)
                               else max (length (data s)) (readBytePosition s + n + 1))"
    and yb: "byte s' = (if n = 0 then byte s
                        else Some (uint (data s' ! (readBytePosition s + n - 1))))"
    unfolding readBytes_def by (auto simp: new_empty)
  from e obtain k where k: "data s' = data s @ replicate k 0"
    and c: "byteCount s' = length (data s')" and r7': "readBitPosition s' \<le> 7"
    by (auto simp: extended_iff)
  from k l a have "k = readBytePosition s + n + 1 - length (data s)"
    by (auto simp: max_def split: if_splits)
  with k have 1: "data s' = data s @ replicate (readBytePosition s + n + 1 - length (data s)) 0"
    by simp
  have "readBytePosition s' = read_position s' div 8"
    using position_div_mod(1) [OF r7'] by simp
  also have "\<dots> = read_position s div 8 + n" by (simp add: p)
  also have "\<dots> = readBytePosition s + n" by (simp add: position_div_mod(1) [OF r7])
  finally have 2: "readBytePosition s' = readBytePosition s + n" .
  have "readBitPosition s' = 7 - read_position s' mod 8"
    using position_div_mod(2) [OF r7'] by simp
  also have "\<dots> = 7 - read_position s mod 8" by (simp add: p)
  also have "\<dots> = readBitPosition s" by (rule position_div_mod(2) [OF r7])
  finally have 3: "readBitPosition s' = readBitPosition s" .
  have y: "byte s' = (if n = 0 then byte s
                      else Some (uint (data s' ! (readBytePosition s + n - 1))))"
    by (rule yb)
  let ?k = "readBytePosition s + n + 1 - length (data s)"
  let ?t = "s\<lparr>data := data s @ replicate ?k 0,
                byteCount := max (length (data s)) (readBytePosition s + n + 1),
                writeBytePosition :=
                  (if length (data s) \<le> readBytePosition s + n then readBytePosition s + n + 1
                   else writeBytePosition s),
                byte := (if n = 0 then byte s
                         else if readBytePosition s + n \<le> length (data s)
                         then Some (uint (data s ! (readBytePosition s + n - 1)))
                         else Some 0),
                readBytePosition := readBytePosition s + n\<rparr>"
  have 4: "byteCount s' = max (length (data s)) (readBytePosition s + n + 1)"
    using c 1 a by (simp add: max_def)
  have 5: "writeBitPosition s' = writeBitPosition s"
    using e by (simp add: extended_def)
  have 6: "writeBytePosition s' =
             (if length (data s) \<le> readBytePosition s + n then readBytePosition s + n + 1
              else writeBytePosition s)"
    using e l a by (auto simp: extended_def max_def split: if_splits)
  have 7: "byte s' = (if n = 0 then byte s
                         else if readBytePosition s + n \<le> length (data s)
                         then Some (uint (data s ! (readBytePosition s + n - 1)))
                         else Some 0)"
    unfolding y 1 using a by (auto simp: nth_append)
  have "s' = ?t"
    using 1 2 3 4 5 6 7 by (intro BitStream.equality) simp_all
  with r show "readBytes n s = (Inr ?val, ?t)"
    by simp
next
  assume "readBitPosition s < 7 \<and> length (data s) \<le> readBytePosition s"
  with assms show "readBytes n s = (Inr (new_BitStream None), s)"
    unfolding readBytes_def
    by (cases n) (simp_all add: return_def length_BitStream_def)
qed

theorem C8_readBytes_next_bytes_witness:
  "byteCount (new_BitStream (Some [1, 2, 3])) = length (data (new_BitStream (Some [1, 2, 3]))) \<and>
   readBitPosition (new_BitStream (Some [1, 2, 3])) = 7 \<and>
   readBytes 2 (new_BitStream (Some [1, 2, 3])) =
     (Inr \<lparr>data = [1, 2], byteCount = 2, readBytePosition = 0, readBitPosition = 7,
            writeBytePosition = 2, writeBitPosition = 7, byte = None\<rparr>,
      \<lparr>data = [1, 2, 3], byteCount = 3, readBytePosition = 2, readBitPosition = 7,
        writeBytePosition = 0, writeBitPosition = 7, byte = Some 2\<rparr>) \<and>
   readBytes 3 \<lparr>data = [0xAB, 0xCD], byteCount = 2, readBytePosition = 0,
          readBitPosition = 3, writeBytePosition = 0, writeBitPosition = 7, byte = Some 0xAB\<rparr> =
     (Inr \<lparr>data = [0xBC, 0xD0, 0], byteCount = 3, readBytePosition = 0, readBitPosition = 7,
            writeBytePosition = 3, writeBitPosition = 7, byte = None\<rparr>,
      \<lparr>data = [0xAB, 0xCD, 0, 0], byteCount = 4, readBytePosition = 3,
          readBitPosition = 3, writeBytePosition = 4, writeBitPosition = 7, byte = Some 0\<rparr>) \<and>
   readBytes 1 \<lparr>data = [0xAB, 0xCD], byteCount = 2, readBytePosition = 0,
          readBitPosition = 3, writeBytePosition = 0, writeBitPosition = 5, byte = Some 0xAB\<rparr> =
     (Inr \<lparr>data = [0xBC], byteCount = 1, readBytePosition = 0, readBitPosition = 7,
            writeBytePosition = 1, writeBitPosition = 7, byte = None\<rparr>,
      \<lparr>data = [0xAB, 0xCD], byteCount = 2, readBytePosition = 1,
          readBitPosition = 3, writeBytePosition = 0, writeBitPosition = 5, byte = Some 0xAB\<rparr>) \<and>
   readBytes 2 \<lparr>data = [0xAA], byteCount = 1, readBytePosition = 2, readBitPosition = 6,
          writeBytePosition = 0, writeBitPosition = 6, byte = Some 0xAA\<rparr> =
     (Inr (new_BitStream None),
      \<lparr>data = [0xAA], byteCount = 1, readBytePosition = 2, readBitPosition = 6,
          writeBytePosition = 0, writeBitPosition = 6, byte = Some 0xAA\<rparr>)"
proof -
  let ?s = "\<lparr>data = [0xAB, 0xCD], byteCount = 2, readBytePosition = 0,
          readBitPosition = 3, writeBytePosition = 0, writeBitPosition = 7, byte = Some 0xAB\<rparr>"
  let ?u = "\<lparr>data = [0xAB, 0xCD], byteCount = 2, readBytePosition = 0,
          readBitPosition = 3, writeBytePosition = 0, writeBitPosition = 5, byte = Some 0xAB\<rparr>"
  let ?t = "\<lparr>data = [0xAA], byteCount = 1, readBytePosition = 2, readBitPosition = 6,
          writeBytePosition = 0, writeBitPosition = 6, byte = Some 0xAA\<rparr>"
  have 1: "readBytes 2 (new_BitStream (Some [1, 2, 3])) =
     (Inr \<lparr>data = [1, 2], byteCount = 2, readBytePosition = 0, readBitPosition = 7,
            writeBytePosition = 2, writeBitPosition = 7, byte = None\<rparr>,
      \<lparr>data = [1, 2, 3], byteCount = 3, readBytePosition = 2, readBitPosition = 7,
        writeBytePosition = 0, writeBitPosition = 7, byte = Some 2\<rparr>)"
    using C8_readBytes_next_bytes [of "new_BitStream (Some [1, 2, 3])" 2, THEN conjunct1]
    by (simp add: new_BitStream_def)
  have u: "[0..<3] = [0, 1, 2]" by (simp add: upt_conv_Cons)
  have 2: "readBytes 3 ?s =
     (Inr \<lparr>data = [0xBC, 0xD0, 0], byteCount = 3, readBytePosition = 0, readBitPosition = 7,
            writeBytePosition = 3, writeBitPosition = 7, byte = None\<rparr>,
      \<lparr>data = [0xAB, 0xCD, 0, 0], byteCount = 4, readBytePosition = 3,
          readBitPosition = 3, writeBytePosition = 4, writeBitPosition = 7, byte = Some 0\<rparr>)"
    using C8_readBytes_next_bytes [of ?s 3, THEN conjunct2, THEN conjunct1]
    by (simp add: read_position_def u byte_from_example numeral_2_eq_2)
  have 3: "readBytes 1 ?u =
     (Inr \<lparr>data = [0xBC], byteCount = 1, readBytePosition = 0, readBitPosition = 7,
            writeBytePosition = 1, writeBitPosition = 7, byte = None\<rparr>,
      \<lparr>data = [0xAB, 0xCD], byteCount = 2, readBytePosition = 1,
          readBitPosition = 3, writeBytePosition = 0, writeBitPosition = 5, byte = Some 0xAB\<rparr>)"
    using C8_readBytes_next_bytes [of ?u 1, THEN conjunct2, THEN conjunct1]
    by (simp add: read_position_def byte_from_example)
  have 4: "readBytes 2 ?t = (Inr (new_BitStream None), ?t)"
    using C8_readBytes_next_bytes [of ?t 2, THEN conjunct2, THEN conjunct2]
    by simp
  show ?thesis
    using 1 2 3 4 by (simp add: new_BitStream_def)
qed

text \<open>
  Claim C9 (layout of \<open>writeFloat\<close>). The 32 bits that \<open>writeFloat\<close> emits are, in this
  order: bits 7 to 0 of the mantissa, bits 15 to 8 of the mantissa (the low 16 bits as two
  little-endian bytes), bit 0 of the biased exponent, bits 22 to 16 of the mantissa, the sign
  bit, and bits 7 to 1 of the biased exponent. For 0 all 32 bits are 0. For every other
  number the exponent is the floor of what \<open>Math.log2\<close> returns for \<open>|n|\<close>, plus the bias 127,
  and the mantissa is \<open>ceil((|n| / 2^exponent - 1) * 2^23)\<close>, the fraction behind the implicit
  leading 1; where \<open>Math.pow(2, exponent)\<close> overflows or underflows, the 23 mantissa bits
  written are 0. For 3.14, whose logarithm \<open>Math.log2\<close> puts between 1 and 2, the bytes
  written on a fresh stream, and on the 4-byte buffer of the test, are
  \<open>[0xC3, 0xF5, 0x48, 0x40]\<close>.
\<close>

theorem C9_writeFloat_layout:
  "writeFloat_fields sign e m = writeBit_seq (float_bits sign e m) \<and>
   writeFloat lg 0 = writeBit_seq (replicate 32 False) \<and>
   (n \<noteq> 0 \<longrightarrow>
      writeFloat lg n =
        writeBit_seq (float_bits (n < 0) (\<lfloor>lg \<bar>n\<bar>\<rfloor> + 127)
          (if - 1074 \<le> \<lfloor>lg \<bar>n\<bar>\<rfloor> \<and> \<lfloor>lg \<bar>n\<bar>\<rfloor> < 1024
           then \<lceil>(\<bar>n\<bar> / 2 powr (of_int \<lfloor>lg \<bar>n\<bar>\<rfloor>) - 1) * 2 ^ 23\<rceil> else 0))) \<and>
   (1 \<le> lg double_3_14 \<and> lg double_3_14 < 2 \<longrightarrow>
      writeFloat lg double_3_14 (new_BitStream None) =
        (Inr (), \<lparr>data = [0xC3, 0xF5, 0x48, 0x40], byteCount = 4, readBytePosition = 0,
           readBitPosition = 7, writeBytePosition = 4, writeBitPosition = 7, byte = None\<rparr>) \<and>
      writeFloat lg double_3_14 (new_BitStream (Some [0, 0, 0, 0])) =
        (Inr (), \<lparr>data = [0xC3, 0xF5, 0x48, 0x40], byteCount = 4, readBytePosition = 0,
           readBitPosition = 7, writeBytePosition = 4, writeBitPosition = 7, byte = Some 0\<rparr>))"
proof (intro conjI impI)
  show "writeFloat_fields sign e m = writeBit_seq (float_bits sign e m)"
    by (rule writeFloat_fields_bits)
next
  have "writeFloat lg 0 = writeFloat_fields False 0 0"
    by (simp add: writeFloat_def)
  then show "writeFloat lg 0 = writeBit_seq (replicate 32 False)"
    by (simp only: writeFloat_fields_bits float_bits_zero)
next
  assume "n \<noteq> 0"
  have c: "x / 0.00000011920928955078125 = x * 2 ^ 23" for x :: real
    by simp
  let ?e = "\<lfloor>lg \<bar>n\<bar>\<rfloor>"
  consider "1024 \<le> ?e" | "?e < - 1074" | "- 1074 \<le> ?e \<and> ?e < 1024" by linarith
  then show "writeFloat lg n =
        writeBit_seq (float_bits (n < 0) (?e + 127)
          (if - 1074 \<le> ?e \<and> ?e < 1024
           then \<lceil>(\<bar>n\<bar> / 2 powr (of_int ?e) - 1) * 2 ^ 23\<rceil> else 0))"
  proof cases
    case 1
    with \<open>n \<noteq> 0\<close> show ?thesis
      by (simp add: writeFloat_def Let_def writeFloat_fields_bits float_bits_overflow)
  next
    case 2
    with \<open>n \<noteq> 0\<close> show ?thesis
      by (simp add: writeFloat_def Let_def writeFloat_fields_bits)
  next
    case 3
    with \<open>n \<noteq> 0\<close> show ?thesis
      by (simp add: writeFloat_def Let_def writeFloat_fields_bits)
  qed
next
  assume "1 \<le> lg double_3_14 \<and> lg double_3_14 < 2"
  then have "\<lfloor>lg double_3_14\<rfloor> = 1" by (simp add: floor_eq_iff)
  then have w: "writeFloat lg double_3_14 = writeFloat_fields False 128 4781507"
    by (rule writeFloat_3_14)
  show "writeFloat lg double_3_14 (new_BitStream None) =
     (Inr (), \<lparr>data = [0xC3, 0xF5, 0x48, 0x40], byteCount = 4, readBytePosition = 0,
        readBitPosition = 7, writeBytePosition = 4, writeBitPosition = 7, byte = None\<rparr>)"
    by (simp only: w writeFloat_fields_3_14)
  show "writeFloat lg double_3_14 (new_BitStream (Some [0, 0, 0, 0])) =
     (Inr (), \<lparr>data = [0xC3, 0xF5, 0x48, 0x40], byteCount = 4, readBytePosition = 0,
        readBitPosition = 7, writeBytePosition = 4, writeBitPosition = 7, byte = Some 0\<rparr>)"
    by (simp only: w writeFloat_fields_3_14_preloaded)
qed

theorem C9_writeFloat_layout_witness:
  "double_3_14 \<noteq> 0 \<and>
   writeFloat (log 2) double_3_14 = writeBit_seq
     [True, True, False, False, False, False, True, True,
      True, True, True, True, False, True, False, True,
      False, True, False, False, True, False, False, False,
      False, True, False, False, False, False, False, False] \<and>
   1 \<le> log 2 double_3_14 \<and> log 2 double_3_14 < 2 \<and>
   writeFloat (log 2) double_3_14 (new_BitStream None) =
     (Inr (), \<lparr>data = [0xC3, 0xF5, 0x48, 0x40], byteCount = 4, readBytePosition = 0,
        readBitPosition = 7, writeBytePosition = 4, writeBitPosition = 7, byte = None\<rparr>) \<and>
   writeFloat (log 2) double_3_14 (new_BitStream (Some [0, 0, 0, 0])) =
     (Inr (), \<lparr>data = [0xC3, 0xF5, 0x48, 0x40], byteCount = 4, readBytePosition = 0,
        readBitPosition = 7, writeBytePosition = 4, writeBitPosition = 7, byte = Some 0\<rparr>)"
proof -
  note t = C9_writeFloat_layout [of False 0 0 "log 2" double_3_14]
  have nz: "double_3_14 \<noteq> 0" "\<not> double_3_14 < 0" by (simp_all add: double_3_14_def)
  have p: "0 < double_3_14" by (simp add: double_3_14_def)
  have "(2::real) powr 1 \<le> double_3_14" "double_3_14 < 2 powr 2"
    by (simp_all add: double_3_14_def)
  with p have r: "1 \<le> log 2 double_3_14" "log 2 double_3_14 < 2"
    by (simp_all add: le_log_iff log_less_iff del: powr_numeral)
  have m: "\<lceil>(\<bar>double_3_14\<bar> / 2 powr (of_int 1) - 1) * 2 ^ 23\<rceil> = 4781507"
    using float_mantissa_3_14 by simp
  from t [THEN conjunct2, THEN conjunct2, THEN conjunct1] nz
  have 1: "writeFloat (log 2) double_3_14 = writeBit_seq (float_bits False (1 + 127) 4781507)"
    by (simp only: float_exponent_3_14 m) simp
  from t [THEN conjunct2, THEN conjunct2, THEN conjunct2] r
  have 2: "writeFloat (log 2) double_3_14 (new_BitStream None) =
     (Inr (), \<lparr>data = [0xC3, 0xF5, 0x48, 0x40], byteCount = 4, readBytePosition = 0,
        readBitPosition = 7, writeBytePosition = 4, writeBitPosition = 7, byte = None\<rparr>)"
    and 3: "writeFloat (log 2) double_3_14 (new_BitStream (Some [0, 0, 0, 0])) =
     (Inr (), \<lparr>data = [0xC3, 0xF5, 0x48, 0x40], byteCount = 4, readBytePosition = 0,
        readBitPosition = 7, writeBytePosition = 4, writeBitPosition = 7, byte = Some 0\<rparr>)"
    by simp_all
  show ?thesis
    using nz(1) r 1 2 3 by (simp add: float_bits_3_14 del: writeBit_seq.simps)
qed

text \<open>
  Claim C10 (\<open>writeString\<close> does not truncate). With \<open>length s \<ge> size\<close>,
  \<open>writeString(s, size)\<close> writes one byte for every character of \<open>s\<close>, in order, and does
  not truncate to \<open>size\<close> bytes: at any write cursor the call is the sequence of \<open>writeBit\<close>
  calls on the bits 7 to 0 of the first character code, then of the second, up to the last.
  When \<open>s\<close> is shorter than \<open>size\<close> these bits are followed by those of \<open>size - length s\<close> zero
  bytes. On every stream whose write cursor is at a byte boundary or inside the buffer the
  call returns and \<open>bits()\<close> has grown by 8 times the larger of \<open>length s\<close> and \<open>size\<close>; at a
  byte boundary the bytes written are the low 8 bits of the character codes, followed by the
  padding.
\<close>

theorem C10_writeString_no_truncation:
  "(sz \<le> int (length str) \<longrightarrow>
      writeString str (Some sz) = writeBit_seq (concat (map char_bits str))) \<and>
   (int (length str) < sz \<longrightarrow>
      writeString str (Some sz) =
        writeBit_seq (concat (map char_bits (str @ replicate (nat sz - length str) 0)))) \<and>
   (write_cursor_ok s \<longrightarrow>
      (\<exists>s'. writeString str (Some sz) s = (Inr (), s') \<and>
            bits s' = bits s + 8 * int (max (length str) (nat sz)))) \<and>
   (writeBitPosition s = 7 \<and> sz \<le> int (length str) \<longrightarrow>
      writeString str (Some sz) s = (Inr (), after_bytes s (map word_of_int str))) \<and>
   (writeBitPosition s = 7 \<and> int (length str) < sz \<longrightarrow>
      writeString str (Some sz) s =
        (Inr (), after_bytes s (map word_of_int str @ replicate (nat sz - length str) 0)))"
proof (intro conjI impI)
  assume "sz \<le> int (length str)"
  then show "writeString str (Some sz) = writeBit_seq (concat (map char_bits str))"
    by (simp add: writeString_def write_chars_bits)
next
  assume "int (length str) < sz"
  then show "writeString str (Some sz) =
        writeBit_seq (concat (map char_bits (str @ replicate (nat sz - length str) 0)))"
    by (simp add: writeString_def write_chars_bits nat_diff_distrib)
next
  assume a: "write_cursor_ok s"
  let ?p = "str @ replicate (nat (sz - int (length str))) 0"
  have l: "length ?p = max (length str) (nat sz)"
    by (simp add: max_def nat_diff_distrib) linarith
  have "writeString str (Some sz) s = write_chars ?p s"
    by (simp add: writeString_def)
  with write_chars_counts [OF a, of ?p] l
  show "\<exists>s'. writeString str (Some sz) s = (Inr (), s') \<and>
            bits s' = bits s + 8 * int (max (length str) (nat sz))"
    by auto
next
  assume "writeBitPosition s = 7 \<and> sz \<le> int (length str)"
  then show "writeString str (Some sz) s = (Inr (), after_bytes s (map word_of_int str))"
    by (simp add: writeString_def write_chars_aligned)
next
  assume "writeBitPosition s = 7 \<and> int (length str) < sz"
  then show "writeString str (Some sz) s =
        (Inr (), after_bytes s (map word_of_int str @ replicate (nat sz - length str) 0))"
    by (simp add: writeString_def write_chars_aligned nat_diff_distrib)
qed

theorem C10_writeString_no_truncation_witness:
  "2 \<le> int (length [104, 105, 33 :: int]) \<and>
   writeString [104, 105, 33] (Some 2) =
     writeBit_seq [False, True, True, False, True, False, False, False,
                   False, True, True, False, True, False, False, True,
                   False, False, True, False, False, False, False, True] \<and>
   int (length [104 :: int]) < 2 \<and>
   writeString [104] (Some 2) =
     writeBit_seq [False, True, True, False, True, False, False, False,
                   False, False, False, False, False, False, False, False] \<and>
   write_cursor_ok (new_BitStream None) \<and> writeBitPosition (new_BitStream None) = 7 \<and>
   writeString [104, 105, 33] (Some 2) (new_BitStream None) =
     (Inr (), \<lparr>data = [104, 105, 33], byteCount = 3, readBytePosition = 0, readBitPosition = 7,
        writeBytePosition = 3, writeBitPosition = 7, byte = None\<rparr>) \<and>
   bits \<lparr>data = [104, 105, 33], byteCount = 3, readBytePosition = 0, readBitPosition = 7,
        writeBytePosition = 3, writeBitPosition = 7, byte = None\<rparr>
     = bits (new_BitStream None) + 8 * 3 \<and>
   writeString [104] (Some 2) (new_BitStream None) =
     (Inr (), \<lparr>data = [104, 0], byteCount = 2, readBytePosition = 0, readBitPosition = 7,
        writeBytePosition = 2, writeBitPosition = 7, byte = None\<rparr>)"
proof -
  note a = C10_writeString_no_truncation [of 2 "[104, 105, 33]" "new_BitStream None"]
  note b = C10_writeString_no_truncation [of 2 "[104]" "new_BitStream None"]
  have ok: "write_cursor_ok (new_BitStream None)" "writeBitPosition (new_BitStream None) = 7"
    by (simp_all add: new_empty write_cursor_ok_def)
  have 1: "writeString [104, 105, 33] (Some 2) =
     writeBit_seq [False, True, True, False, True, False, False, False,
                   False, True, True, False, True, False, False, True,
                   False, False, True, False, False, False, False, True]"
    using a [THEN conjunct1] by (simp add: char_bits_def del: writeBit_seq.simps)
  have 2: "writeString [104] (Some 2) =
     writeBit_seq [False, True, True, False, True, False, False, False,
                   False, False, False, False, False, False, False, False]"
    using b [THEN conjunct2, THEN conjunct1] by (simp add: char_bits_def del: writeBit_seq.simps)
  have 3: "writeString [104, 105, 33] (Some 2) (new_BitStream None) =
     (Inr (), \<lparr>data = [104, 105, 33], byteCount = 3, readBytePosition = 0, readBitPosition = 7,
        writeBytePosition = 3, writeBitPosition = 7, byte = None\<rparr>)"
    using a [THEN conjunct2, THEN conjunct2, THEN conjunct2, THEN conjunct1] ok
    by (simp add: new_empty after_bytes_def grown_def)
  have 4: "writeString [104] (Some 2) (new_BitStream None) =
     (Inr (), \<lparr>data = [104, 0], byteCount = 2, readBytePosition = 0, readBitPosition = 7,
        writeBytePosition = 2, writeBitPosition = 7, byte = None\<rparr>)"
    using b [THEN conjunct2, THEN conjunct2, THEN conjunct2, THEN conjunct2] ok
    by (simp add: new_empty after_bytes_def grown_def)
  have 5: "bits \<lparr>data = [104, 105, 33], byteCount = 3, readBytePosition = 0, readBitPosition = 7,
        writeBytePosition = 3, writeBitPosition = 7, byte = None\<rparr>
     = bits (new_BitStream None) + 8 * 3"
    using a [THEN conjunct2, THEN conjunct2, THEN conjunct1] ok unfolding 3 by simp
  show ?thesis
    using ok 1 2 3 4 5 by (simp del: writeBit_seq.simps)
qed

end
